theory Spec2Isabelle
  imports Main "HOL-Library.Sublist" "HOL-Library.AList"
begin

text \<open>
  The program asks a language model for an answer in JSON and checks it:
  \<open>_extract_json\<close> takes the JSON text out of the model's answer, and
  \<open>ask_llm_for_json\<close> calls the model, parses and validates the extracted text, and
  on failure asks again with the error appended to the prompt, up to \<open>max_retries\<close>
  times. The first part of this theory gives the functions of \<open>json_runner.py\<close>,
  \<open>llm_client.py\<close> and \<open>schemas.py\<close>, the second their properties, the third the
  claims of the specification.
\<close>

section \<open>Text\<close>

text \<open>
  A Python \<open>str\<close> is a sequence of Unicode code points. A code point is modelled as a
  natural number and a string as the list of its code points, so that \<open>length\<close> counts
  what Python's \<open>len\<close> counts. String literals of the source are written with \<open>str\<close>.
\<close>

type_synonym codepoint = nat
type_synonym pystr = "codepoint list"

definition str :: "string \<Rightarrow> pystr" where
  "str s = map of_char s"

text \<open>
  The code points for which \<open>str.isspace\<close> holds. \<open>str.strip()\<close> without argument and the
  class \<open>\s\<close> of \<open>re\<close> on a \<open>str\<close> pattern both use this set.
\<close>

definition is_space :: "codepoint \<Rightarrow> bool" where
  "is_space c =
     ((9 \<le> c \<and> c \<le> 13) \<or> (28 \<le> c \<and> c \<le> 32) \<or> c = 133 \<or> c = 160 \<or> c = 5760 \<or>
      (8192 \<le> c \<and> c \<le> 8202) \<or> c = 8232 \<or> c = 8233 \<or> c = 8239 \<or> c = 8287 \<or> c = 12288)"

definition lstrip :: "pystr \<Rightarrow> pystr" where
  "lstrip s = dropWhile is_space s"

definition rstrip :: "pystr \<Rightarrow> pystr" where
  "rstrip s = rev (dropWhile is_space (rev s))"

definition strip :: "pystr \<Rightarrow> pystr" where
  "strip s = rstrip (lstrip s)"

text \<open>\<open>sub in s\<close> on strings.\<close>

fun contains :: "pystr \<Rightarrow> pystr \<Rightarrow> bool" where
  "contains sub [] = (sub = [])"
| "contains sub (c # cs) = (prefix sub (c # cs) \<or> contains sub cs)"

section \<open>The two fence patterns\<close>

definition FENCE :: pystr where
  "FENCE = str ''```''"

definition FENCE_JSON :: pystr where
  "FENCE_JSON = str ''```json''"

text \<open>
  The tail \<open>\s*```\<close> of both patterns, tried at the head of \<open>s\<close>. The greedy \<open>\s*\<close> takes
  the whole run of white space; giving characters back leaves a white-space character in
  front of the literal, which starts with a backquote, so only the whole run can match.
\<close>

definition closes :: "pystr \<Rightarrow> bool" where
  "closes s = prefix FENCE (dropWhile is_space s)"

text \<open>
  The lazy group \<open>([\s\S]*?)\<close> followed by \<open>\s*```\<close>: the group starts empty and takes one
  more character (any character) each time the tail fails to match. The first argument is
  the group so far.
\<close>

fun lazy_group :: "pystr \<Rightarrow> pystr \<Rightarrow> pystr option" where
  "lazy_group g [] = (if closes [] then Some g else None)"
| "lazy_group g (c # cs) = (if closes (c # cs) then Some g else lazy_group (g @ [c]) cs)"

fun first_some :: "'a option list \<Rightarrow> 'a option" where
  "first_some [] = None"
| "first_some (None # xs) = first_some xs"
| "first_some (Some x # xs) = Some x"

text \<open>
  A match attempt at the head of \<open>s\<close> for the pattern \<open>tag\s*([\s\S]*?)\s*```\<close>: the literal
  \<open>tag\<close>, then the greedy \<open>\s*\<close>, which tries the whole run of \<open>n\<close> white-space characters
  first and then gives them back one by one, then the lazy group. The result is group 1.
\<close>

definition match_here :: "pystr \<Rightarrow> pystr \<Rightarrow> pystr option" where
  "match_here tag s =
     (if prefix tag s then
        (let r = drop (length tag) s;
             n = length (takeWhile is_space r)
         in first_some (map (\<lambda>k. lazy_group [] (drop k r)) (rev [0..<Suc n])))
      else None)"

text \<open>\<open>re.search\<close>: the match attempt at each start position, from the left.\<close>

fun re_search :: "pystr \<Rightarrow> pystr \<Rightarrow> pystr option" where
  "re_search tag [] = match_here tag []"
| "re_search tag (c # cs) =
     (case match_here tag (c # cs) of
        Some g \<Rightarrow> Some g
      | None \<Rightarrow> re_search tag cs)"

section \<open>The extractor\<close>

definition extract_json :: "pystr \<Rightarrow> pystr" where
  "extract_json text0 =
     (let stripped = strip text0 in
      case (if contains FENCE_JSON stripped then re_search FENCE_JSON stripped else None) of
        Some g \<Rightarrow> strip g
      | None \<Rightarrow>
          (case (if contains FENCE stripped then re_search FENCE stripped else None) of
             Some g \<Rightarrow> strip g
           | None \<Rightarrow> stripped))"

section \<open>Decimal rendering of integers\<close>

text \<open>What an f-string writes for an \<open>int\<close>.\<close>

fun str_of_nat :: "nat \<Rightarrow> pystr" where
  "str_of_nat n = (if n < 10 then [48 + n] else str_of_nat (n div 10) @ [48 + n mod 10])"

declare str_of_nat.simps [simp del]

definition str_of_int :: "int \<Rightarrow> pystr" where
  "str_of_int i = (if i < 0 then 45 # str_of_nat (nat (- i)) else str_of_nat (nat i))"

section \<open>Exceptions and outcomes\<close>

text \<open>
  An exception is its class and the text \<open>str(e)\<close>. The loop tells two classes apart,
  \<open>json.JSONDecodeError\<close> and pydantic's \<open>ValidationError\<close>, and raises \<open>ValueError\<close>
  itself; every other class is \<open>OtherError\<close> with the name of the class.
\<close>

datatype exn =
    JSONDecodeError pystr
  | ValidationError pystr
  | ValueError pystr
  | OtherError pystr pystr

text \<open>
  How a call of a Python function ends: with a value, with \<open>None\<close> because the body ran
  to its end without a \<open>return\<close>, or with an exception.
\<close>

datatype 'v outcome = Return 'v | ReturnNone | Raise exn

section \<open>The completion service\<close>

text \<open>
  \<open>call_llm(prompt, model)\<close> sends one chat request with the prompt as the only user
  message and returns \<open>resp["message"]["content"]\<close>; the temperature is the default
  \<open>0.1\<close> in every call of the loop. The service is outside the program: what it answers
  may depend on everything it was sent so far. It is a function from the requests made so
  far, the current one last, to the content of the answer or to the exception the call
  raises. A request is the model name and the prompt.
\<close>

type_synonym request = "pystr \<times> pystr"
type_synonym service = "request list \<Rightarrow> exn + pystr"

definition call_llm :: "service \<Rightarrow> request list \<Rightarrow> pystr \<Rightarrow> pystr \<Rightarrow> (exn + pystr) \<times> request list" where
  "call_llm chat calls prompt model =
     (let calls' = calls @ [(model, prompt)] in (chat calls', calls'))"

section \<open>The retry loop\<close>

text \<open>The default of \<open>max_retries\<close>.\<close>

definition MAX_RETRIES :: int where
  "MAX_RETRIES = 3"

text \<open>\<open>range(n)\<close>.\<close>

definition range_py :: "int \<Rightarrow> int list" where
  "range_py n = [0..n - 1]"

text \<open>An f-string field holding a \<open>str | None\<close>.\<close>

definition fmt :: "pystr option \<Rightarrow> pystr" where
  "fmt x = (case x of None \<Rightarrow> str ''None'' | Some s \<Rightarrow> s)"

text \<open>
  The text that the corrective f-string puts after \<open>{current_prompt}\<close>: the source lines
  are indented by twelve spaces inside the triple-quoted literal.
\<close>

definition corrective_suffix :: "pystr option \<Rightarrow> pystr" where
  "corrective_suffix last_error =
     str ''\<newline>            ---\<newline>            Your previous response was invalid:\<newline>            ''
     @ fmt last_error
     @ str ''\<newline>\<newline>            Please fix the JSON and return ONLY valid JSON matching the schema. No other text.\<newline>            ''"

definition corrective_prompt :: "pystr \<Rightarrow> pystr option \<Rightarrow> pystr" where
  "corrective_prompt current_prompt last_error = current_prompt @ corrective_suffix last_error"

definition failed_message :: "int \<Rightarrow> pystr option \<Rightarrow> pystr" where
  "failed_message max_retries last_error =
     str ''Failed after '' @ str_of_int max_retries @ str '' attempts. Last error: '' @ fmt last_error"

text \<open>
  The \<open>try\<close> block of one attempt: \<open>json.loads\<close>, then \<open>schema_cls.model_validate\<close>.
  Both are library functions and parameters here: \<open>loads\<close> and \<open>validate\<close> return the
  value or the exception they raise. The result is the validated value or the exception
  that left the \<open>try\<close> body.
\<close>

definition parse_and_validate ::
  "(pystr \<Rightarrow> exn + 'd) \<Rightarrow> ('d \<Rightarrow> exn + 'v) \<Rightarrow> pystr \<Rightarrow> exn + 'v" where
  "parse_and_validate loads validate json_str =
     (case loads json_str of
        Inl e \<Rightarrow> Inl e
      | Inr data \<Rightarrow> validate data)"

text \<open>
  The two \<open>except\<close> clauses: the new value of \<open>last_error\<close> for the two classes that are
  caught, \<open>None\<close> for an exception that no clause catches.
\<close>

fun caught :: "exn \<Rightarrow> pystr option" where
  "caught (JSONDecodeError m) = Some (str ''JSON decode error: '' @ m)"
| "caught (ValidationError m) = Some (str ''Schema validation error: '' @ m)"
| "caught _ = None"

text \<open>
  The \<open>for\<close> loop over the attempt numbers that are left. The state is the loop's
  variables \<open>current_prompt\<close> and \<open>last_error\<close> and the requests made so far. The
  service call stands before the \<open>try\<close>, so an exception of the call leaves the function.
\<close>

fun attempts ::
  "service \<Rightarrow> (pystr \<Rightarrow> exn + 'd) \<Rightarrow> ('d \<Rightarrow> exn + 'v) \<Rightarrow> pystr \<Rightarrow> int \<Rightarrow>
   int list \<Rightarrow> pystr \<Rightarrow> pystr option \<Rightarrow> request list \<Rightarrow> 'v outcome \<times> request list" where
  "attempts chat loads validate model max_retries [] current_prompt last_error calls =
     (ReturnNone, calls)"
| "attempts chat loads validate model max_retries (attempt # rest) current_prompt last_error calls =
     (case call_llm chat calls current_prompt model of
        (Inl e, calls') \<Rightarrow> (Raise e, calls')
      | (Inr raw, calls') \<Rightarrow>
          (let json_str = extract_json raw in
           case parse_and_validate loads validate json_str of
             Inr v \<Rightarrow> (Return v, calls')
           | Inl e \<Rightarrow>
               (case caught e of
                  None \<Rightarrow> (Raise e, calls')
                | Some err \<Rightarrow>
                    (let last_error' = Some err in
                     if attempt < max_retries - 1 then
                       attempts chat loads validate model max_retries rest
                         (corrective_prompt current_prompt last_error') last_error' calls'
                     else
                       (Raise (ValueError (failed_message max_retries last_error')), calls')))))"

text \<open>
  \<open>ask_llm_for_json(prompt, schema_cls, model, max_retries)\<close>, with the requests it made.
\<close>

definition ask_llm_for_json ::
  "service \<Rightarrow> (pystr \<Rightarrow> exn + 'd) \<Rightarrow> ('d \<Rightarrow> exn + 'v) \<Rightarrow> pystr \<Rightarrow> pystr \<Rightarrow> int \<Rightarrow>
   'v outcome \<times> request list" where
  "ask_llm_for_json chat loads validate prompt model max_retries =
     attempts chat loads validate model max_retries (range_py max_retries) prompt None []"

section \<open>What one attempt records\<close>

text \<open>
  The value that an attempt assigns to \<open>last_error\<close>, read off the answer of the
  service call: \<open>None\<close> when the call raised, when the answer parsed and validated, or
  when the \<open>try\<close> body raised an exception that no \<open>except\<close> clause catches. This is
  not a function of the source; the statements below use it to speak of the outcome of
  the attempt that made a given request.
\<close>

definition attempt_error ::
  "(pystr \<Rightarrow> exn + 'd) \<Rightarrow> ('d \<Rightarrow> exn + 'v) \<Rightarrow> exn + pystr \<Rightarrow> pystr option" where
  "attempt_error loads validate answer =
     (case answer of
        Inl e \<Rightarrow> None
      | Inr raw \<Rightarrow>
          (case parse_and_validate loads validate (extract_json raw) of
             Inr v \<Rightarrow> None
           | Inl e \<Rightarrow> caught e))"

section \<open>The JSON decoder\<close>

text \<open>
  \<open>json.loads\<close> belongs to the standard library and \<open>model_validate\<close> to pydantic;
  the loop above takes both as parameters, and what is proved of the loop holds whatever
  they are. This section and the next give the two functions themselves, to run the loop
  on concrete answers. The decoder is the one of CPython 3.11 with its default settings:
  the result for every document, and for a malformed one the message of the
  \<open>JSONDecodeError\<close>. A \<open>float\<close> is kept as the text of the number, which determines
  it. The limits of the interpreter (recursion depth, the number of digits of an \<open>int\<close>)
  are not part of it.
\<close>

datatype json =
    JNull
  | JBool bool
  | JInt int
  | JFloat pystr
  | JStr pystr
  | JArr "json list"
  | JObj "(pystr \<times> json) list"

type_synonym scan_error = "pystr \<times> pystr"

definition is_json_ws :: "codepoint \<Rightarrow> bool" where
  "is_json_ws c = (c = 32 \<or> c = 9 \<or> c = 10 \<or> c = 13)"

definition skip_ws :: "pystr \<Rightarrow> pystr" where
  "skip_ws s = dropWhile is_json_ws s"

definition is_digit :: "codepoint \<Rightarrow> bool" where
  "is_digit c = (48 \<le> c \<and> c \<le> 57)"

definition hex_digit :: "codepoint \<Rightarrow> nat option" where
  "hex_digit c =
     (if 48 \<le> c \<and> c \<le> 57 then Some (c - 48)
      else if 97 \<le> c \<and> c \<le> 102 then Some (c - 87)
      else if 65 \<le> c \<and> c \<le> 70 then Some (c - 55)
      else None)"

definition hex4 :: "codepoint \<Rightarrow> codepoint \<Rightarrow> codepoint \<Rightarrow> codepoint \<Rightarrow> nat option" where
  "hex4 a b c d =
     (case (hex_digit a, hex_digit b, hex_digit c, hex_digit d) of
        (Some w, Some x, Some y, Some z) \<Rightarrow> Some (((w * 16 + x) * 16 + y) * 16 + z)
      | _ \<Rightarrow> None)"

definition escape_char :: "codepoint \<Rightarrow> codepoint option" where
  "escape_char e =
     (if e = 34 then Some 34 else if e = 92 then Some 92 else if e = 47 then Some 47
      else if e = 98 then Some 8 else if e = 102 then Some 12 else if e = 110 then Some 10
      else if e = 114 then Some 13 else if e = 116 then Some 9 else None)"

definition is_high_surrogate :: "nat \<Rightarrow> bool" where
  "is_high_surrogate u = (55296 \<le> u \<and> u \<le> 56319)"

definition is_low_surrogate :: "nat \<Rightarrow> bool" where
  "is_low_surrogate u = (56320 \<le> u \<and> u \<le> 57343)"

definition join_surrogates :: "nat \<Rightarrow> nat \<Rightarrow> codepoint" where
  "join_surrogates u u2 = 65536 + ((u - 55296) * 1024 + (u2 - 56320))"

text \<open>The four hex digits after \<open>\u\<close>, and the text after them. The scanner asks for
  one more character after the four.\<close>

definition u_escape :: "pystr \<Rightarrow> (nat \<times> pystr) option" where
  "u_escape es =
     (case es of
        h1 # h2 # h3 # h4 # x # r \<Rightarrow> map_option (\<lambda>u. (u, x # r)) (hex4 h1 h2 h3 h4)
      | _ \<Rightarrow> None)"

text \<open>
  One escape sequence; \<open>cs\<close> is the text after the backslash. A high surrogate that is
  followed by \<open>\u\<close>, four characters and one more is paired with a low surrogate that
  follows; when what follows is no low surrogate it stays alone.
\<close>

definition escape :: "pystr \<Rightarrow> pystr \<Rightarrow> scan_error + (codepoint \<times> pystr)" where
  "escape start cs =
     (case cs of
        [] \<Rightarrow> Inl (str ''Unterminated string starting at'', start)
      | e # es \<Rightarrow>
          if e \<noteq> 117 then
            (case escape_char e of
               None \<Rightarrow> Inl (str ''Invalid '' @ [92] @ str ''escape'', 92 # cs)
             | Some ch \<Rightarrow> Inr (ch, es))
          else
            (case u_escape es of
               None \<Rightarrow> Inl (str ''Invalid '' @ [92] @ str ''uXXXX escape'', cs)
             | Some (u, r) \<Rightarrow>
                 if is_high_surrogate u \<and> 6 < length r \<and> take 2 r = [92, 117] then
                   (case u_escape (drop 2 r) of
                      None \<Rightarrow> Inl (str ''Invalid '' @ [92] @ str ''uXXXX escape'', drop 1 r)
                    | Some (u2, r') \<Rightarrow>
                        if is_low_surrogate u2 then Inr (join_surrogates u u2, r')
                        else Inr (u, r))
                 else Inr (u, r)))"

function scanstring :: "pystr \<Rightarrow> pystr \<Rightarrow> pystr \<Rightarrow> scan_error + (pystr \<times> pystr)" where
  "scanstring start acc [] = Inl (str ''Unterminated string starting at'', start)"
| "scanstring start acc (c # cs) =
     (if c = 34 then Inr (acc, cs)
      else if c = 92 then
        (case escape start cs of
           Inl e \<Rightarrow> Inl e
         | Inr (ch, r) \<Rightarrow> scanstring start (acc @ [ch]) r)
      else if c \<le> 31 then Inl (str ''Invalid control character at'', c # cs)
      else scanstring start (acc @ [c]) cs)"
  by pat_completeness auto
termination
proof (relation "measure (\<lambda>(start, acc, cs). length cs)")
  show "wf (measure (\<lambda>(start, acc, cs). length cs))" by simp
next
  fix start acc :: pystr and c :: codepoint and cs x2 x y
  assume e: "escape start cs = Inr x2" "(x, y) = x2"
  have u: "length r < length es" if "u_escape es = Some (u, r)" for es u r
    using that by (auto simp: u_escape_def split: list.splits)
  have "length y \<le> length cs"
  proof (cases cs)
    case Nil
    with e show ?thesis by (simp add: escape_def)
  next
    case (Cons e0 es)
    show ?thesis
    proof (cases "e0 = 117")
      case False
      with e Cons show ?thesis
        by (auto simp: escape_def split: option.splits)
    next
      case True
      with e Cons obtain u r where ur: "u_escape es = Some (u, r)"
        by (auto simp: escape_def split: option.splits)
      from u [OF ur] have r: "length r < length es" .
      show ?thesis
      proof (cases "is_high_surrogate u \<and> 6 < length r \<and> take 2 r = [92, 117]")
        case False
        with e Cons True ur have "y = r" by (auto simp: escape_def)
        with r Cons show ?thesis by simp
      next
        case pair: True
        with e Cons True ur obtain u2 r' where u2: "u_escape (drop 2 r) = Some (u2, r')"
          by (auto simp: escape_def split: option.splits)
        from u [OF u2] have "length r' < length r" by simp
        moreover from e Cons True ur pair u2 have "y = r' \<or> y = r"
          by (auto simp: escape_def split: if_splits)
        ultimately show ?thesis using r Cons by auto
      qed
    qed
  qed
  then show "((start, acc @ [x], y), start, acc, c # cs) \<in> measure (\<lambda>(start, acc, cs). length cs)"
    by simp
next
  fix start acc :: pystr and c :: codepoint and cs
  show "((start, acc @ [c], cs), start, acc, c # cs) \<in> measure (\<lambda>(start, acc, cs). length cs)"
    by simp
qed


text \<open>The value of a run of decimal digits.\<close>

definition digits_value :: "pystr \<Rightarrow> nat" where
  "digits_value ds = foldl (\<lambda>n d. 10 * n + (d - 48)) 0 ds"

text \<open>
  A number at the head of the text: an optional minus sign, then \<open>0\<close> or a digit from
  \<open>1\<close> to \<open>9\<close> with further digits, then a fraction when a dot and a digit follow, then
  an exponent when \<open>e\<close> or \<open>E\<close>, an optional sign and a digit follow. Without fraction
  and exponent the value is an \<open>int\<close>, otherwise a \<open>float\<close>.
\<close>

definition match_fraction :: "pystr \<Rightarrow> pystr \<times> pystr" where
  "match_fraction r =
     (case r of
        d # f # r' \<Rightarrow>
          if d = 46 \<and> is_digit f then (d # f # takeWhile is_digit r', dropWhile is_digit r')
          else ([], r)
      | _ \<Rightarrow> ([], r))"

definition match_exponent :: "pystr \<Rightarrow> pystr \<times> pystr" where
  "match_exponent r =
     (case r of
        e # r' \<Rightarrow>
          if e = 101 \<or> e = 69 then
            (let (sign, r'') =
                   (case r' of
                      s # t \<Rightarrow> if (s = 45 \<or> s = 43) \<and> t \<noteq> [] then ([s], t) else ([], r')
                    | [] \<Rightarrow> ([], r'));
                 ds = takeWhile is_digit r''
             in if ds = [] then ([], r) else (e # sign @ ds, dropWhile is_digit r''))
          else ([], r)
      | [] \<Rightarrow> ([], r))"

definition match_number :: "pystr \<Rightarrow> (json \<times> pystr) option" where
  "match_number s =
     (let (neg, r0) = (case s of c # r \<Rightarrow> if c = 45 then (True, r) else (False, s) | [] \<Rightarrow> (False, s))
      in case r0 of
           [] \<Rightarrow> None
         | c # r1 \<Rightarrow>
             if is_digit c then
               (let ds = (if c = 48 then [c] else c # takeWhile is_digit r1);
                    r2 = (if c = 48 then r1 else dropWhile is_digit r1);
                    (frac, r3) = match_fraction r2;
                    (ex, r4) = match_exponent r3
                in if frac = [] \<and> ex = []
                   then Some (JInt (if neg then - int (digits_value ds) else int (digits_value ds)), r4)
                   else Some (JFloat ((if neg then [45] else []) @ ds @ frac @ ex), r4))
             else None)"


text \<open>
  The scanner for one JSON value and the loops for the items of an array and the members
  of an object. The text is the rest of the document; an error is its message and the
  rest of the document at the place it points to. The tests on \<open>length\<close> before a
  recursive call are there for the termination proof; they never fail, since the text
  left over by a value is shorter than the text the value was read from (lemma
  \<open>scan_progress\<close> below).
\<close>

function (sequential) scan_once :: "pystr \<Rightarrow> scan_error + (json \<times> pystr)"
  and parse_array :: "json list \<Rightarrow> pystr \<Rightarrow> scan_error + (json \<times> pystr)"
  and parse_object :: "(pystr \<times> json) list \<Rightarrow> pystr \<Rightarrow> scan_error + (json \<times> pystr)"
where
  "scan_once [] = Inl (str ''Expecting value'', [])"
| "scan_once (c # cs) =
     (if c = 34 then
        (case scanstring (c # cs) [] cs of
           Inl e \<Rightarrow> Inl e
         | Inr (s, r) \<Rightarrow> Inr (JStr s, r))
      else if c = 123 then
        (case skip_ws cs of
           [] \<Rightarrow> parse_object [] []
         | d # r \<Rightarrow> if d = 125 then Inr (JObj [], r) else parse_object [] (d # r))
      else if c = 91 then
        (case skip_ws cs of
           [] \<Rightarrow> parse_array [] []
         | d # r \<Rightarrow> if d = 93 then Inr (JArr [], r) else parse_array [] (d # r))
      else if prefix (str ''null'') (c # cs) then Inr (JNull, drop 4 (c # cs))
      else if prefix (str ''true'') (c # cs) then Inr (JBool True, drop 4 (c # cs))
      else if prefix (str ''false'') (c # cs) then Inr (JBool False, drop 5 (c # cs))
      else if prefix (str ''NaN'') (c # cs) then Inr (JFloat (str ''NaN''), drop 3 (c # cs))
      else if prefix (str ''Infinity'') (c # cs) then Inr (JFloat (str ''Infinity''), drop 8 (c # cs))
      else if prefix (str ''-Infinity'') (c # cs) then Inr (JFloat (str ''-Infinity''), drop 9 (c # cs))
      else
        (case match_number (c # cs) of
           None \<Rightarrow> Inl (str ''Expecting value'', c # cs)
         | Some (v, r) \<Rightarrow> Inr (v, r)))"
| "parse_array acc cs =
     (case scan_once cs of
        Inl e \<Rightarrow> Inl e
      | Inr (v, r) \<Rightarrow>
          (case skip_ws r of
             [] \<Rightarrow> Inl (str ''Expecting '' @ [39] @ str '','' @ [39] @ str '' delimiter'', [])
           | d # r' \<Rightarrow>
               if d = 93 then Inr (JArr (acc @ [v]), r')
               else if d = 44 then
                 (if length r' < length cs then parse_array (acc @ [v]) (skip_ws r')
                  else Inl (str ''no progress'', cs))
               else Inl (str ''Expecting '' @ [39] @ str '','' @ [39] @ str '' delimiter'', d # r')))"
| "parse_object acc cs =
     (case cs of
        [] \<Rightarrow> Inl (str ''Expecting property name enclosed in double quotes'', [])
      | q # cs' \<Rightarrow>
          if q \<noteq> 34 then Inl (str ''Expecting property name enclosed in double quotes'', cs)
          else
            (case scanstring cs [] cs' of
               Inl e \<Rightarrow> Inl e
             | Inr (key, r) \<Rightarrow>
                 (case skip_ws r of
                    [] \<Rightarrow> Inl (str ''Expecting '' @ [39] @ str '':'' @ [39] @ str '' delimiter'', [])
                  | d # r' \<Rightarrow>
                      if d \<noteq> 58 then
                        Inl (str ''Expecting '' @ [39] @ str '':'' @ [39] @ str '' delimiter'', d # r')
                      else if length (skip_ws r') < length cs then
                        (case scan_once (skip_ws r') of
                           Inl e \<Rightarrow> Inl e
                         | Inr (v, r3) \<Rightarrow>
                             (case skip_ws r3 of
                                [] \<Rightarrow> Inl (str ''Expecting '' @ [39] @ str '','' @ [39] @ str '' delimiter'', [])
                              | d2 # r4 \<Rightarrow>
                                  if d2 = 125 then Inr (JObj (AList.update key v acc), r4)
                                  else if d2 = 44 then
                                    (if length r4 < length cs
                                     then parse_object (AList.update key v acc) (skip_ws r4)
                                     else Inl (str ''no progress'', cs))
                                  else Inl (str ''Expecting '' @ [39] @ str '','' @ [39] @ str '' delimiter'', d2 # r4)))
                      else Inl (str ''no progress'', cs))))"
  by pat_completeness auto
termination
proof (relation "measure (\<lambda>x. case x of
          Inl cs \<Rightarrow> 2 * length cs
        | Inr (Inl (acc, cs)) \<Rightarrow> 2 * length cs + 1
        | Inr (Inr (acc, cs)) \<Rightarrow> 2 * length cs + 1)", goal_cases)
  case 1
  show ?case by simp
next
  case (2 c cs)
  then show ?case by simp
next
  case (3 c cs d r)
  have "length (skip_ws cs) \<le> length cs"
    unfolding skip_ws_def by (rule length_dropWhile_le)
  with 3 show ?case by simp
next
  case (4 c cs)
  then show ?case by simp
next
  case (5 c cs d r)
  have "length (skip_ws cs) \<le> length cs"
    unfolding skip_ws_def by (rule length_dropWhile_le)
  with 5 show ?case by simp
next
  case (6 acc cs)
  then show ?case by simp
next
  case (7 acc cs x2 v r d r')
  have "length (skip_ws r') \<le> length r'"
    unfolding skip_ws_def by (rule length_dropWhile_le)
  with 7 show ?case by simp
next
  case (8 acc cs q cs' x2 key r d r')
  then show ?case by simp
next
  case (9 acc cs q cs' x2 key r d r' x2a v r3 d2 r4)
  have "length (skip_ws r4) \<le> length r4"
    unfolding skip_ws_def by (rule length_dropWhile_le)
  with 9 show ?case by simp
qed


text \<open>
  The text of a \<open>JSONDecodeError\<close>: the message, then line and column (both from 1)
  and the index of the character the error points to.
\<close>

definition decode_error :: "pystr \<Rightarrow> pystr \<Rightarrow> nat \<Rightarrow> exn" where
  "decode_error msg doc pos =
     (let seen = take pos doc;
          lineno = count_list seen 10 + 1;
          colno = length (takeWhile (\<lambda>c. c \<noteq> 10) (rev seen)) + 1
      in JSONDecodeError
           (msg @ str '': line '' @ str_of_nat lineno @ str '' column '' @ str_of_nat colno
            @ str '' (char '' @ str_of_nat pos @ str '')''))"

text \<open>
  \<open>json.loads\<close> on a \<open>str\<close>, with the default decoder: white space, one value, white
  space, end of the document.
\<close>

definition json_loads :: "pystr \<Rightarrow> exn + json" where
  "json_loads s =
     (if prefix [65279] s then
        Inl (decode_error (str ''Unexpected UTF-8 BOM (decode using utf-8-sig)'') s 0)
      else
        (case scan_once (skip_ws s) of
           Inl (msg, rest) \<Rightarrow> Inl (decode_error msg s (length s - length rest))
         | Inr (v, rest) \<Rightarrow>
             (let rest' = skip_ws rest in
              if rest' = [] then Inr v
              else Inl (decode_error (str ''Extra data'') s (length s - length rest')))))"


section \<open>The schema classes\<close>

text \<open>
  \<open>Citation\<close> and \<open>QAResponse\<close> of \<open>schemas.py\<close>: the values of the two classes as
  records, and \<open>model_validate\<close> on what \<open>json.loads\<close> returns. Validation is the
  library's (pydantic, version 2, default configuration): the input of a model is a
  dictionary; the fields are checked in the order of their declaration and every error
  is collected; a field declared with \<open>Field(...)\<close> is required; a \<open>str\<close> field takes
  a string only; a \<open>List\<close> field takes a list and checks every item; keys that are no
  fields are ignored; \<open>citations\<close> has the default \<open>list()\<close>. A dictionary is looked
  up with \<open>map_of\<close>.
\<close>

record citation =
  source_id :: pystr
  quote :: pystr

record qa_response =
  answer :: pystr
  citations :: "citation list"

datatype loc_item = Field pystr | Index nat

datatype error_type = Missing | String_type | List_type | Model_type pystr

text \<open>One error of a validation: where, what, and the input it was found on.\<close>

type_synonym line_error = "loc_item list \<times> error_type \<times> json"

definition validate_str :: "loc_item list \<Rightarrow> json \<Rightarrow> line_error list + pystr" where
  "validate_str loc v = (case v of JStr s \<Rightarrow> Inr s | _ \<Rightarrow> Inl [(loc, String_type, v)])"

definition required_str ::
  "loc_item list \<Rightarrow> (pystr \<times> json) list \<Rightarrow> pystr \<Rightarrow> line_error list + pystr" where
  "required_str loc kvs name =
     (case map_of kvs name of
        None \<Rightarrow> Inl [(loc @ [Field name], Missing, JObj kvs)]
      | Some v \<Rightarrow> validate_str (loc @ [Field name]) v)"

text \<open>The errors of both when one fails, the pair of values otherwise.\<close>

definition both :: "line_error list + 'a \<Rightarrow> line_error list + 'b \<Rightarrow> line_error list + ('a \<times> 'b)" where
  "both x y =
     (case (x, y) of
        (Inr a, Inr b) \<Rightarrow> Inr (a, b)
      | (Inl e, Inr b) \<Rightarrow> Inl e
      | (Inr a, Inl f) \<Rightarrow> Inl f
      | (Inl e, Inl f) \<Rightarrow> Inl (e @ f))"

definition Citation_validate :: "loc_item list \<Rightarrow> json \<Rightarrow> line_error list + citation" where
  "Citation_validate loc v =
     (case v of
        JObj kvs \<Rightarrow>
          (case both (required_str loc kvs (str ''source_id'')) (required_str loc kvs (str ''quote'')) of
             Inl errs \<Rightarrow> Inl errs
           | Inr (s, q) \<Rightarrow> Inr \<lparr>source_id = s, quote = q\<rparr>)
      | _ \<Rightarrow> Inl [(loc, Model_type (str ''Citation''), v)])"

fun validate_items :: "loc_item list \<Rightarrow> nat \<Rightarrow> json list \<Rightarrow> line_error list + citation list" where
  "validate_items loc i [] = Inr []"
| "validate_items loc i (x # xs) =
     (case both (Citation_validate (loc @ [Index i]) x) (validate_items loc (Suc i) xs) of
        Inl errs \<Rightarrow> Inl errs
      | Inr (c, cs) \<Rightarrow> Inr (c # cs))"

definition validate_citations :: "loc_item list \<Rightarrow> json \<Rightarrow> line_error list + citation list" where
  "validate_citations loc v =
     (case v of JArr xs \<Rightarrow> validate_items loc 0 xs | _ \<Rightarrow> Inl [(loc, List_type, v)])"

definition QAResponse_validate :: "json \<Rightarrow> line_error list + qa_response" where
  "QAResponse_validate v =
     (case v of
        JObj kvs \<Rightarrow>
          (case both (required_str [] kvs (str ''answer''))
                  (case map_of kvs (str ''citations'') of
                     None \<Rightarrow> Inr []
                   | Some x \<Rightarrow> validate_citations [Field (str ''citations'')] x) of
             Inl errs \<Rightarrow> Inl errs
           | Inr (a, cs) \<Rightarrow> Inr \<lparr>answer = a, citations = cs\<rparr>)
      | _ \<Rightarrow> Inl [([], Model_type (str ''QAResponse''), v)])"

text \<open>
  The text \<open>str(e)\<close> of the library's \<open>ValidationError\<close>: a line with the number of
  errors and the name of the class, then for every error the place as a line of its own,
  the field names and list indices joined by dots (no such line for an error on the
  whole input), and an indented line with the message and \<open>[type=\<close> and the name of the
  kind of error. What the library writes after that name, the input value as Python
  prints it and a link that holds the library's version, is the parameter \<open>detail\<close>.
\<close>

definition loc_item_str :: "loc_item \<Rightarrow> pystr" where
  "loc_item_str x = (case x of Field name \<Rightarrow> name | Index i \<Rightarrow> str_of_nat i)"

fun join_dots :: "pystr list \<Rightarrow> pystr" where
  "join_dots [] = []"
| "join_dots [x] = x"
| "join_dots (x # y # ys) = x @ [46] @ join_dots (y # ys)"

definition error_message :: "error_type \<Rightarrow> pystr" where
  "error_message t =
     (case t of
        Missing \<Rightarrow> str ''Field required''
      | String_type \<Rightarrow> str ''Input should be a valid string''
      | List_type \<Rightarrow> str ''Input should be a valid list''
      | Model_type cls \<Rightarrow> str ''Input should be a valid dictionary or instance of '' @ cls)"

definition error_type_name :: "error_type \<Rightarrow> pystr" where
  "error_type_name t =
     (case t of
        Missing \<Rightarrow> str ''missing''
      | String_type \<Rightarrow> str ''string_type''
      | List_type \<Rightarrow> str ''list_type''
      | Model_type cls \<Rightarrow> str ''model_type'')"

definition line_error_str :: "(line_error \<Rightarrow> pystr) \<Rightarrow> line_error \<Rightarrow> pystr" where
  "line_error_str detail e =
     (case e of (loc, t, input) \<Rightarrow>
        [10] @ (if loc = [] then [] else join_dots (map loc_item_str loc) @ [10])
        @ str ''  '' @ error_message t @ str '' [type='' @ error_type_name t @ detail e)"

definition validation_error_str :: "(line_error \<Rightarrow> pystr) \<Rightarrow> pystr \<Rightarrow> line_error list \<Rightarrow> pystr" where
  "validation_error_str detail title errs =
     str_of_nat (length errs) @ str '' validation error'' @ (if length errs = 1 then [] else str ''s'')
     @ str '' for '' @ title @ concat (map (line_error_str detail) errs)"

text \<open>\<open>QAResponse.model_validate\<close>: the value, or the \<open>ValidationError\<close> it raises.\<close>

definition QAResponse_model_validate :: "(line_error \<Rightarrow> pystr) \<Rightarrow> json \<Rightarrow> exn + qa_response" where
  "QAResponse_model_validate detail v =
     (case QAResponse_validate v of
        Inl errs \<Rightarrow> Inl (ValidationError (validation_error_str detail (str ''QAResponse'') errs))
      | Inr r \<Rightarrow> Inr r)"

section \<open>An example\<close>

text \<open>
  The error that an attempt records when the extracted text is \<open>x\<close>, which is no JSON
  document.
\<close>

abbreviation error_x :: pystr where
  "error_x \<equiv> str ''JSON decode error: '' @ str ''Expecting value: line 1 column 1 (char 0)''"

section \<open>Properties\<close>

subsection \<open>The fences\<close>

lemma FENCE_code: "FENCE = [96, 96, 96]"
  by (simp add: FENCE_def str_def)

lemma FENCE_JSON_code: "FENCE_JSON = [96, 96, 96, 106, 115, 111, 110]"
  by (simp add: FENCE_JSON_def str_def)

lemma FENCE_JSON_FENCE: "FENCE_JSON = FENCE @ [106, 115, 111, 110]"
  by (simp add: FENCE_code FENCE_JSON_code)

lemma backquote_not_space: "\<not> is_space 96"
  by (simp add: is_space_def)

lemma contains_sublist: "contains sub s \<longleftrightarrow> sublist sub s"
  by (induction s) (auto simp: sublist_Cons_right)

subsection \<open>Stripping\<close>

lemma rstrip_decomp: "\<exists>w. s = rstrip s @ w \<and> (\<forall>c \<in> set w. is_space c)"
proof -
  have "rev s = takeWhile is_space (rev s) @ dropWhile is_space (rev s)" by simp
  then have "s = rev (dropWhile is_space (rev s)) @ rev (takeWhile is_space (rev s))"
    by (metis rev_append rev_rev_ident)
  moreover have "\<forall>c \<in> set (rev (takeWhile is_space (rev s))). is_space c"
    by (auto dest: set_takeWhileD)
  ultimately show ?thesis unfolding rstrip_def by blast
qed

lemma rstrip_Nil [simp]: "rstrip [] = []"
  by (simp add: rstrip_def)

lemma lstrip_Nil [simp]: "lstrip [] = []"
  by (simp add: lstrip_def)

lemma strip_Nil [simp]: "strip [] = []"
  by (simp add: strip_def)

lemma rstrip_last: "rstrip s \<noteq> [] \<Longrightarrow> \<not> is_space (last (rstrip s))"
  unfolding rstrip_def using hd_dropWhile [of is_space "rev s"]
  by (simp add: last_rev)

lemma lstrip_hd: "lstrip s \<noteq> [] \<Longrightarrow> \<not> is_space (hd (lstrip s))"
  unfolding lstrip_def using hd_dropWhile [of is_space s] by simp

lemma lstrip_id: "s = [] \<or> \<not> is_space (hd s) \<Longrightarrow> lstrip s = s"
  unfolding lstrip_def by (cases s) auto

lemma rstrip_id: "s = [] \<or> \<not> is_space (last s) \<Longrightarrow> rstrip s = s"
  unfolding rstrip_def by (cases s rule: rev_cases) auto

lemma rstrip_hd: "rstrip s \<noteq> [] \<Longrightarrow> hd (rstrip s) = hd s"
  using rstrip_decomp [of s] by (metis hd_append2)

lemma strip_hd: "strip s \<noteq> [] \<Longrightarrow> \<not> is_space (hd (strip s))"
  unfolding strip_def
  by (metis lstrip_hd rstrip_hd rstrip_Nil)

lemma strip_last: "strip s \<noteq> [] \<Longrightarrow> \<not> is_space (last (strip s))"
  unfolding strip_def by (rule rstrip_last)

lemma strip_id: "s = [] \<or> (\<not> is_space (hd s) \<and> \<not> is_space (last s)) \<Longrightarrow> strip s = s"
  unfolding strip_def by (metis lstrip_id rstrip_id)

lemma strip_strip: "strip (strip s) = strip s"
  by (rule strip_id) (metis strip_hd strip_last)

lemma sublist_lstrip: "sublist (lstrip s) s"
  unfolding lstrip_def by (rule suffix_imp_sublist) (rule suffix_dropWhile)

lemma sublist_rstrip: "sublist (rstrip s) s"
  using rstrip_decomp [of s] by (metis sublist_append_rightI)

lemma sublist_strip: "sublist (strip s) s"
  unfolding strip_def using sublist_rstrip sublist_lstrip
  by (metis sublist_order.order_trans)

lemma dropWhile_space_fence: "dropWhile is_space (FENCE @ s) = FENCE @ s"
  by (simp add: FENCE_code backquote_not_space)

lemma prefix_fence_closes: "prefix FENCE s \<Longrightarrow> closes s"
  unfolding closes_def by (auto simp: prefix_def dropWhile_space_fence)

lemma not_closes_Nil [simp]: "\<not> closes []"
  by (simp add: closes_def FENCE_code)

text \<open>The group found by the lazy scan extends the start value by a prefix of the
  input in which no closing tail starts.\<close>

lemma lazy_group_Some:
  "lazy_group g s = Some r \<Longrightarrow>
     \<exists>m rest. s = m @ rest \<and> r = g @ m \<and> closes rest \<and> (\<forall>i < length m. \<not> closes (drop i s))"
proof (induction s arbitrary: g)
  case Nil
  then show ?case by simp
next
  case (Cons c cs)
  show ?case
  proof (cases "closes (c # cs)")
    case True
    with Cons.prems have "r = g" by simp
    with True show ?thesis by (intro exI [of _ "[]"] exI [of _ "c # cs"]) simp
  next
    case False
    with Cons.prems have "lazy_group (g @ [c]) cs = Some r" by simp
    from Cons.IH [OF this] obtain m rest where
      m: "cs = m @ rest" "r = (g @ [c]) @ m" "closes rest" "\<forall>i < length m. \<not> closes (drop i cs)"
      by blast
    have "\<forall>i < length (c # m). \<not> closes (drop i (c # cs))"
    proof (intro allI impI)
      fix i assume "i < length (c # m)"
      then show "\<not> closes (drop i (c # cs))"
        using False m(4) by (cases i) auto
    qed
    with m show ?thesis
      by (intro exI [of _ "c # m"] exI [of _ rest]) simp
  qed
qed

lemma lazy_group_None:
  "lazy_group g s = None \<Longrightarrow> i \<le> length s \<Longrightarrow> \<not> closes (drop i s)"
proof (induction s arbitrary: g i)
  case Nil
  then show ?case by simp
next
  case (Cons c cs)
  from Cons.prems(1) have nc: "\<not> closes (c # cs)" and rec: "lazy_group (g @ [c]) cs = None"
    by (auto split: if_splits)
  show ?case
  proof (cases i)
    case 0
    with nc show ?thesis by simp
  next
    case (Suc j)
    with Cons.prems(2) have "j \<le> length cs" by simp
    from Cons.IH [OF rec this] Suc show ?thesis by simp
  qed
qed

lemma lazy_group_found:
  "closes rest \<Longrightarrow> \<forall>i < length m. \<not> closes (drop i (m @ rest)) \<Longrightarrow>
   lazy_group g (m @ rest) = Some (g @ m)"
proof (induction m arbitrary: g)
  case Nil
  then show ?case by (cases rest) auto
next
  case (Cons c m)
  from Cons.prems(2) have nc: "\<not> closes (c # m @ rest)" by fastforce
  have "\<forall>i < length m. \<not> closes (drop i (m @ rest))"
  proof (intro allI impI)
    fix i assume "i < length m"
    then have "Suc i < length (c # m)" by simp
    with Cons.prems(2) have "\<not> closes (drop (Suc i) ((c # m) @ rest))" by blast
    then show "\<not> closes (drop i (m @ rest))" by simp
  qed
  from Cons.IH [OF Cons.prems(1) this] nc show ?case by simp
qed

lemma no_fence_in_group:
  assumes "\<forall>i < length m. \<not> closes (drop i (m @ rest))"
  shows "\<not> sublist FENCE m"
proof
  assume "sublist FENCE m"
  then obtain ps ss where m: "m = ps @ FENCE @ ss" by (auto simp: sublist_def)
  then have "length ps < length m" by (simp add: FENCE_code)
  with assms have "\<not> closes (drop (length ps) (m @ rest))" by blast
  moreover have "drop (length ps) (m @ rest) = FENCE @ ss @ rest" using m by simp
  ultimately show False using prefix_fence_closes [of "FENCE @ ss @ rest"] by simp
qed

lemma lazy_group_no_fence:
  assumes "lazy_group [] s = Some r"
  shows "\<not> sublist FENCE r"
proof -
  from lazy_group_Some [OF assms] obtain m rest where
    "s = m @ rest" "r = m" "\<forall>i < length m. \<not> closes (drop i s)" by auto
  then show ?thesis using no_fence_in_group [of m rest] by simp
qed

lemma first_some_Some:
  "first_some xs = Some x \<Longrightarrow> Some x \<in> set xs"
  by (induction xs rule: first_some.induct) auto

lemma first_some_None:
  "first_some xs = None \<longleftrightarrow> (\<forall>x \<in> set xs. x = None)"
  by (induction xs rule: first_some.induct) auto

lemma match_here_no_fence:
  assumes "match_here tag s = Some r"
  shows "\<not> sublist FENCE r"
proof -
  from assms obtain k where "lazy_group [] (drop k (drop (length tag) s)) = Some r"
    unfolding match_here_def Let_def
    by (auto split: if_splits dest!: first_some_Some)
  then show ?thesis by (rule lazy_group_no_fence)
qed

lemma re_search_no_fence:
  "re_search tag s = Some r \<Longrightarrow> \<not> sublist FENCE r"
  by (induction s) (auto split: option.splits dest: match_here_no_fence)

lemma no_fence_strip: "\<not> sublist FENCE r \<Longrightarrow> \<not> sublist FENCE (strip r)"
  using sublist_strip sublist_order.order_trans by blast

lemma no_fence_no_tag: "\<not> sublist FENCE r \<Longrightarrow> \<not> sublist FENCE_JSON r"
proof -
  have "sublist FENCE FENCE_JSON" by (simp add: FENCE_JSON_FENCE)
  then show "\<not> sublist FENCE r \<Longrightarrow> \<not> sublist FENCE_JSON r"
    using sublist_order.order_trans by blast
qed

lemma extract_json_fixed:
  assumes "strip s = s" and "\<not> sublist FENCE s"
  shows "extract_json s = s"
  using assms no_fence_no_tag [OF assms(2)]
  by (simp add: extract_json_def contains_sublist)

lemma extract_json_cases:
  "(\<exists>g. \<not> sublist FENCE g \<and> extract_json s = strip g) \<or>
   (extract_json s = strip s \<and>
    (contains FENCE_JSON (strip s) \<longrightarrow> re_search FENCE_JSON (strip s) = None) \<and>
    (contains FENCE (strip s) \<longrightarrow> re_search FENCE (strip s) = None))"
  unfolding extract_json_def Let_def
  by (auto split: option.splits if_splits dest: re_search_no_fence)

subsection \<open>The match at the first tag\<close>

lemma prefix_overlap:
  assumes "q \<noteq> []" and "prefix t (q @ t @ rest)"
  shows "prefix t (q @ butlast t)"
proof (cases "t = []")
  case True
  then show ?thesis by simp
next
  case False
  then have "prefix (q @ butlast t) (q @ t @ rest)"
    by (metis append_butlast_last_id append_assoc prefix_def same_prefix_prefix)
  moreover from assms(1) False have "length t \<le> length (q @ butlast t)"
    by (cases q) auto
  ultimately show ?thesis
    using assms(2) prefix_length_prefix by blast
qed

lemma lstrip_append_nonspace:
  "\<not> is_space x \<Longrightarrow> lstrip (pre @ x # r) = lstrip pre @ x # r"
  by (auto simp: lstrip_def dropWhile_append)

lemma rstrip_append_nonspace:
  "\<not> is_space x \<Longrightarrow> rstrip (r @ x # post) = r @ x # rstrip post"
  by (auto simp: rstrip_def dropWhile_append)

lemma closes_spaces_fence:
  "\<forall>c \<in> set w. is_space c \<Longrightarrow> closes (w @ FENCE @ p)"
  by (simp add: closes_def dropWhile_append FENCE_code backquote_not_space)

lemma lazy_group_body:
  assumes nf: "\<not> sublist FENCE (b @ butlast FENCE)"
  shows "lazy_group [] (b @ FENCE @ p) = Some (rstrip b)"
proof -
  obtain w where w: "b = rstrip b @ w" "\<forall>c \<in> set w. is_space c"
    using rstrip_decomp [of b] by blast
  let ?m = "rstrip b"
  have cl: "closes (w @ FENCE @ p)" using w(2) by (rule closes_spaces_fence)
  have "\<not> closes (drop i (?m @ w @ FENCE @ p))" if i: "i < length ?m" for i
  proof
    assume c: "closes (drop i (?m @ w @ FENCE @ p))"
    let ?d = "drop i ?m"
    from i have dne: "?d \<noteq> []" by simp
    have mne: "?m \<noteq> []" using i by auto
    have "last ?d = last ?m" using i by simp
    then have lns: "\<not> is_space (last ?d)" using rstrip_last [OF mne] by simp
    have "last ?d \<in> set ?d" using dne by (rule last_in_set)
    with lns have nall: "\<not> (\<forall>c \<in> set ?d. is_space c)" by blast
    have "drop i (?m @ w @ FENCE @ p) = ?d @ w @ FENCE @ p" using i by simp
    with c have "prefix FENCE (dropWhile is_space ?d @ w @ FENCE @ p)"
      using nall by (simp add: closes_def dropWhile_append)
    moreover have d'ne: "dropWhile is_space ?d \<noteq> []" using nall by (simp add: dropWhile_eq_Nil_conv)
    ultimately have "prefix FENCE ((dropWhile is_space ?d @ w) @ FENCE @ p)" by simp
    then have "prefix FENCE ((dropWhile is_space ?d @ w) @ butlast FENCE)"
      using d'ne by (intro prefix_overlap) auto
    moreover have "suffix (dropWhile is_space ?d @ w) b"
    proof -
      have "suffix (dropWhile is_space ?d) ?m"
        by (meson suffix_drop suffix_dropWhile suffix_order.order_trans)
      then have "suffix (dropWhile is_space ?d @ w) (?m @ w)" by (auto simp: suffix_def)
      with w(1) show ?thesis by simp
    qed
    ultimately have "sublist FENCE (b @ butlast FENCE)"
      by (auto simp: suffix_def sublist_def prefix_def) (metis append_assoc)
    with nf show False by contradiction
  qed
  then have "lazy_group [] (?m @ w @ FENCE @ p) = Some ([] @ ?m)"
    using cl by (intro lazy_group_found) auto
  with w(1) show ?thesis by (metis append_assoc append_Nil)
qed

lemma sublist_suffix_append:
  "suffix b' b \<Longrightarrow> sublist t (b' @ r) \<Longrightarrow> sublist t (b @ r)"
  by (auto simp: suffix_def sublist_def) (metis append_assoc)

lemma match_here_block:
  assumes nf: "\<not> sublist FENCE (body @ butlast FENCE)"
  shows "match_here tag (tag @ body @ FENCE @ post) = Some (strip body)"
proof -
  let ?r = "body @ FENCE @ post"
  let ?n = "length (takeWhile is_space ?r)"
  have dn: "drop ?n ?r = lstrip body @ FENCE @ post"
  proof -
    have "drop ?n ?r = dropWhile is_space ?r" by (simp add: dropWhile_eq_drop)
    also have "\<dots> = lstrip body @ FENCE @ post"
      by (auto simp: lstrip_def dropWhile_append FENCE_code backquote_not_space)
    finally show ?thesis .
  qed
  have "suffix (lstrip body) body" unfolding lstrip_def by (rule suffix_dropWhile)
  with nf have "\<not> sublist FENCE (lstrip body @ butlast FENCE)"
    using sublist_suffix_append by blast
  then have "lazy_group [] (drop ?n ?r) = Some (strip body)"
    unfolding dn strip_def by (rule lazy_group_body)
  then have "first_some (map (\<lambda>k. lazy_group [] (drop k ?r)) (rev [0..<Suc ?n])) = Some (strip body)"
    by simp
  then show ?thesis
    unfolding match_here_def Let_def by simp
qed

lemma re_search_first_block:
  assumes "tag \<noteq> []"
    and "\<not> sublist tag (pre @ butlast tag)"
    and "\<not> sublist FENCE (body @ butlast FENCE)"
  shows "re_search tag (pre @ tag @ body @ FENCE @ post) = Some (strip body)"
  using assms(2)
proof (induction pre)
  case Nil
  obtain c cs where t: "tag = c # cs" using assms(1) by (cases tag) auto
  have "match_here tag (tag @ body @ FENCE @ post) = Some (strip body)"
    using assms(3) by (rule match_here_block)
  then show ?case by (simp add: t)
next
  case (Cons c pre)
  have "\<not> prefix tag ((c # pre) @ tag @ body @ FENCE @ post)"
  proof
    assume "prefix tag ((c # pre) @ tag @ body @ FENCE @ post)"
    then have "prefix tag ((c # pre) @ butlast tag)"
      by (intro prefix_overlap) auto
    with Cons.prems show False by auto
  qed
  then have "match_here tag (c # pre @ tag @ body @ FENCE @ post) = None"
    by (simp add: match_here_def)
  moreover have "\<not> sublist tag (pre @ butlast tag)"
    using Cons.prems by (auto simp: sublist_Cons_right)
  ultimately show ?case using Cons.IH by simp
qed

lemma strip_around:
  assumes "\<not> is_space x" and "\<not> is_space y"
  shows "strip (pre @ x # mid @ y # post) = lstrip pre @ x # mid @ y # rstrip post"
proof -
  have "lstrip (pre @ x # mid @ y # post) = lstrip pre @ x # mid @ y # post"
    using assms(1) by (rule lstrip_append_nonspace)
  moreover have "rstrip ((lstrip pre @ x # mid) @ y # post) = (lstrip pre @ x # mid) @ y # rstrip post"
    using assms(2) by (rule rstrip_append_nonspace)
  ultimately show ?thesis by (simp add: strip_def)
qed

lemma extract_json_first_block:
  assumes tag: "tag = FENCE_JSON \<or> tag = FENCE \<and> \<not> sublist FENCE_JSON text0"
    and text0: "text0 = pre @ tag @ body @ FENCE @ post"
    and first: "\<not> sublist tag (pre @ butlast tag)"
    and closing: "\<not> sublist FENCE (body @ butlast FENCE)"
  shows "extract_json text0 = strip body"
proof -
  obtain t where t: "tag = 96 # t" and tne: "tag \<noteq> []"
    using tag by (auto simp: FENCE_code FENCE_JSON_code)
  have "strip text0 = strip (pre @ 96 # (t @ body @ [96, 96]) @ 96 # post)"
    by (simp add: text0 t FENCE_code)
  also have "\<dots> = lstrip pre @ 96 # (t @ body @ [96, 96]) @ 96 # rstrip post"
    by (rule strip_around [OF backquote_not_space backquote_not_space])
  finally have st: "strip text0 = lstrip pre @ tag @ body @ FENCE @ rstrip post"
    by (simp add: t FENCE_code)
  have "suffix (lstrip pre) pre" unfolding lstrip_def by (rule suffix_dropWhile)
  with first have "\<not> sublist tag (lstrip pre @ butlast tag)"
    using sublist_suffix_append by blast
  then have rs: "re_search tag (strip text0) = Some (strip body)"
    unfolding st using tne closing by (intro re_search_first_block)
  have c: "contains tag (strip text0)"
    unfolding contains_sublist st by simp
  from tag show ?thesis
  proof
    assume "tag = FENCE_JSON"
    with rs c show ?thesis by (simp add: extract_json_def strip_strip)
  next
    assume a: "tag = FENCE \<and> \<not> sublist FENCE_JSON text0"
    then have "\<not> sublist FENCE_JSON (strip text0)"
      using sublist_strip sublist_order.order_trans by blast
    with a rs c show ?thesis by (simp add: extract_json_def strip_strip contains_sublist)
  qed
qed

subsection \<open>The loop\<close>

lemma range_py_empty: "n \<le> 0 \<Longrightarrow> range_py n = []"
  by (simp add: range_py_def)

lemma range_py_last: "1 \<le> n \<Longrightarrow> range_py n = range_py (n - 1) @ [n - 1]"
  unfolding range_py_def using upto_rec2 [of 0 "n - 1"] by simp



text \<open>One iteration, case by case.\<close>

lemma attempts_step:
  "attempts chat loads validate model mr (a # rest) p le calls =
     (let calls' = calls @ [(model, p)] in
      case chat calls' of
        Inl e \<Rightarrow> (Raise e, calls')
      | Inr raw \<Rightarrow>
          (case parse_and_validate loads validate (extract_json raw) of
             Inr v \<Rightarrow> (Return v, calls')
           | Inl e \<Rightarrow>
               (case caught e of
                  None \<Rightarrow> (Raise e, calls')
                | Some err \<Rightarrow>
                    if a < mr - 1 then
                      attempts chat loads validate model mr rest
                        (corrective_prompt p (Some err)) (Some err) calls'
                    else (Raise (ValueError (failed_message mr (Some err))), calls'))))"
  by (simp add: call_llm_def Let_def split: sum.splits option.splits)

declare attempts.simps(2) [simp del]

lemma attempts_step_cases:
  assumes "attempts chat loads validate model mr (a # rest) p le calls = (out, calls')"
  obtains
    (stop) "calls' = calls @ [(model, p)]"
      "attempt_error loads validate (chat calls') = None \<or> \<not> a < mr - 1"
      "out \<noteq> ReturnNone"
      "\<forall>v. out = Return v \<longrightarrow>
         (\<exists>raw. chat calls' = Inr raw \<and>
                parse_and_validate loads validate (extract_json raw) = Inr v)"
  | (retry) err where
      "attempt_error loads validate (chat (calls @ [(model, p)])) = Some err"
      "a < mr - 1"
      "attempts chat loads validate model mr rest (corrective_prompt p (Some err)) (Some err)
         (calls @ [(model, p)]) = (out, calls')"
  using assms unfolding attempts_step Let_def attempt_error_def
  by (auto split: sum.splits option.splits if_splits)

lemma attempts_prefix:
  "attempts chat loads validate model mr as p le calls = (out, calls') \<Longrightarrow>
   prefix calls calls' \<and> length calls' \<le> length calls + length as"
proof (induction as arbitrary: p le calls)
  case Nil
  then show ?case by simp
next
  case (Cons a rest)
  from Cons.prems show ?case
  proof (cases rule: attempts_step_cases)
    case stop
    then show ?thesis by simp
  next
    case (retry err)
    from Cons.IH [OF retry(3)] show ?thesis
      by (auto dest: append_prefixD)
  qed
qed

text \<open>The requests made, and the answers that led from one to the next.\<close>

lemma attempts_trace:
  assumes "attempts chat loads validate model mr as p le calls = (out, calls')"
  shows "(length calls < length calls' \<longrightarrow> calls' ! length calls = (model, p)) \<and>
         (\<forall>k. length calls \<le> k \<and> Suc k < length calls' \<longrightarrow>
            (\<exists>err. attempt_error loads validate (chat (take (Suc k) calls')) = Some err \<and>
                   calls' ! Suc k = (model, corrective_prompt (snd (calls' ! k)) (Some err))))"
  using assms
proof (induction as arbitrary: p le calls)
  case Nil
  then show ?case by auto
next
  case (Cons a rest)
  let ?c1 = "calls @ [(model, p)]"
  from Cons.prems show ?case
  proof (cases rule: attempts_step_cases)
    case stop
    then show ?thesis by (auto simp: nth_append)
  next
    case (retry err)
    from attempts_prefix [OF retry(3)] obtain more where more: "calls' = ?c1 @ more"
      by (auto simp: prefix_def)
    have at: "calls' ! length calls = (model, p)"
      by (simp add: more nth_append)
    have tk: "take (Suc (length calls)) calls' = ?c1"
      by (simp add: more)
    from Cons.IH [OF retry(3)] have
      nxt: "length ?c1 < length calls' \<longrightarrow> calls' ! length ?c1 = (model, corrective_prompt p (Some err))"
      and later: "\<forall>k. length ?c1 \<le> k \<and> Suc k < length calls' \<longrightarrow>
            (\<exists>err. attempt_error loads validate (chat (take (Suc k) calls')) = Some err \<and>
                   calls' ! Suc k = (model, corrective_prompt (snd (calls' ! k)) (Some err)))"
      by blast+
    have "\<exists>err. attempt_error loads validate (chat (take (Suc k) calls')) = Some err \<and>
                   calls' ! Suc k = (model, corrective_prompt (snd (calls' ! k)) (Some err))"
      if k: "length calls \<le> k" "Suc k < length calls'" for k
    proof (cases "k = length calls")
      case True
      with k nxt have "calls' ! Suc k = (model, corrective_prompt p (Some err))" by simp
      with True at tk retry(1) show ?thesis by simp
    next
      case False
      with k have "length ?c1 \<le> k" by simp
      with later k(2) show ?thesis by blast
    qed
    with at show ?thesis by blast
  qed
qed

text \<open>An exception of the service call ends the run at that call.\<close>

lemma attempts_fault:
  assumes "attempts chat loads validate model mr as p le calls = (out, calls')"
    and "length calls < k" and "k \<le> length calls'" and "chat (take k calls') = Inl e"
  shows "out = Raise e \<and> k = length calls'"
  using assms
proof (induction as arbitrary: p le calls)
  case Nil
  then show ?case by simp
next
  case (Cons a rest)
  let ?c1 = "calls @ [(model, p)]"
  from Cons.prems(1) have step: "attempts chat loads validate model mr (a # rest) p le calls = (out, calls')" .
  show ?case
  proof (cases "chat ?c1")
    case (Inl e')
    with step have "out = Raise e'" "calls' = ?c1"
      by (simp_all add: attempts_step)
    with Cons.prems(2,3,4) Inl show ?thesis by simp
  next
    case (Inr raw)
    from step show ?thesis
    proof (cases rule: attempts_step_cases)
      case stop
      with Cons.prems(2,3,4) Inr show ?thesis by simp
    next
      case (retry err)
      from attempts_prefix [OF retry(3)] obtain more where more: "calls' = ?c1 @ more"
        by (auto simp: prefix_def)
      show ?thesis
      proof (cases "k = length ?c1")
        case True
        then have "take k calls' = ?c1" by (simp add: more)
        with Cons.prems(4) Inr show ?thesis by simp
      next
        case False
        with Cons.prems(2) have "length ?c1 < k" by simp
        from Cons.IH [OF retry(3) this Cons.prems(3,4)] show ?thesis .
      qed
    qed
  qed
qed

text \<open>A run whose last attempt number is not below \<open>max_retries - 1\<close> does not fall
  off the loop, and a value it returns was validated.\<close>

lemma attempts_result:
  assumes "attempts chat loads validate model mr as p le calls = (out, calls')"
    and "as \<noteq> []" and "\<not> last as < mr - 1"
  shows "out \<noteq> ReturnNone \<and>
         (\<forall>v. out = Return v \<longrightarrow>
            (\<exists>raw. chat calls' = Inr raw \<and>
                   parse_and_validate loads validate (extract_json raw) = Inr v))"
  using assms
proof (induction as arbitrary: p le calls)
  case Nil
  then show ?case by simp
next
  case (Cons a rest)
  from Cons.prems(1) show ?case
  proof (cases rule: attempts_step_cases)
    case stop
    then show ?thesis by blast
  next
    case (retry err)
    with Cons.prems(3) have ne: "rest \<noteq> []" by auto
    with Cons.prems(3) have "\<not> last rest < mr - 1" by simp
    from Cons.IH [OF retry(3) ne this] show ?thesis .
  qed
qed


subsection \<open>Runs on concrete answers\<close>

lemma range_py_1: "range_py 1 = [0]"
  by (simp add: range_py_def upto_rec1)

lemma range_py_2: "range_py 2 = [0, 1]"
  by (simp add: range_py_def upto_rec1)

lemma range_py_3: "range_py 3 = [0, 1, 2]"
  by (simp add: range_py_def upto_rec1)

lemma loads_x:
  "json_loads (str ''x'') =
     Inl (JSONDecodeError (str ''Expecting value: line 1 column 1 (char 0)''))"
  by (simp add: json_loads_def str_def skip_ws_def is_json_ws_def match_number_def is_digit_def
      decode_error_def str_of_nat.simps)

lemma extract_x: "extract_json (str ''x'') = str ''x''"
  by (simp add: extract_json_def str_def strip_def lstrip_def rstrip_def is_space_def
      FENCE_code FENCE_JSON_code)

lemma attempt_x:
  "parse_and_validate json_loads validate (extract_json (str ''x'')) =
     Inl (JSONDecodeError (str ''Expecting value: line 1 column 1 (char 0)''))"
  by (simp add: parse_and_validate_def extract_x loads_x)


lemma extract_good: "extract_json (str ''{\"answer\":\"a\"}'') = str ''{\"answer\":\"a\"}''"
  by (simp add: extract_json_def str_def strip_def lstrip_def rstrip_def is_space_def
      FENCE_code FENCE_JSON_code)

lemma loads_good:
  "json_loads (str ''{\"answer\":\"a\"}'') = Inr (JObj [(str ''answer'', JStr (str ''a''))])"
  by (simp add: json_loads_def str_def skip_ws_def is_json_ws_def)

lemma validate_good:
  "QAResponse_model_validate detail (JObj [(str ''answer'', JStr (str ''a''))]) =
     Inr \<lparr>answer = str ''a'', citations = []\<rparr>"
  by (simp add: QAResponse_model_validate_def QAResponse_validate_def required_str_def
      validate_str_def both_def str_def)

lemma attempt_good:
  "parse_and_validate json_loads (QAResponse_model_validate detail)
     (extract_json (str ''{\"answer\":\"a\"}'')) = Inr \<lparr>answer = str ''a'', citations = []\<rparr>"
  by (simp add: parse_and_validate_def extract_good loads_good validate_good)

lemma caught_x:
  "caught (JSONDecodeError (str ''Expecting value: line 1 column 1 (char 0)'')) =
     Some error_x"
  by simp


lemma range_py_second: "2 \<le> n \<Longrightarrow> range_py n = 0 # 1 # [2..n - 1]"
  by (simp add: range_py_def upto_rec1)

lemma ask_trace:
  assumes "ask_llm_for_json chat loads validate prompt model max_retries = (out, calls)"
  shows "(0 < length calls \<longrightarrow> calls ! 0 = (model, prompt)) \<and>
         (\<forall>k. Suc k < length calls \<longrightarrow>
            (\<exists>err. attempt_error loads validate (chat (take (Suc k) calls)) = Some err \<and>
                   calls ! Suc k = (model, corrective_prompt (snd (calls ! k)) (Some err))))"
  using attempts_trace [OF assms [unfolded ask_llm_for_json_def]] by simp

lemma corrective_suffix_nonempty: "corrective_suffix e \<noteq> []"
  by (simp add: corrective_suffix_def str_def)

lemma run_three_failures:
  "ask_llm_for_json (\<lambda>calls. Inr (str ''x'')) json_loads
       (QAResponse_model_validate (\<lambda>e. [])) (str ''p'') (str ''m'') 3 =
     (Raise (ValueError (failed_message 3 (Some error_x))) :: qa_response outcome,
      [(str ''m'', str ''p''),
       (str ''m'', corrective_prompt (str ''p'') (Some error_x)),
       (str ''m'', corrective_prompt (corrective_prompt (str ''p'') (Some error_x)) (Some error_x))])"
  by (simp add: ask_llm_for_json_def range_py_3 attempts_step attempt_x)

subsection \<open>A text without fence, bare or in a fenced block\<close>

















lemma loads_fenced_answer:
  "json_loads (str ''{\"answer\":\"```x```\"}'') =
     Inr (JObj [(str ''answer'', JStr (str ''```x```''))])"
  by (simp add: json_loads_def str_def skip_ws_def is_json_ws_def)

lemma validate_fenced_answer:
  "QAResponse_model_validate detail (JObj [(str ''answer'', JStr (str ''```x```''))]) =
     Inr \<lparr>answer = str ''```x```'', citations = []\<rparr>"
  by (simp add: QAResponse_model_validate_def QAResponse_validate_def required_str_def
      validate_str_def both_def str_def)

lemma extract_fenced_answer: "extract_json (str ''{\"answer\":\"```x```\"}'') = str ''x''"
  by (simp add: extract_json_def str_def strip_def lstrip_def rstrip_def is_space_def
      FENCE_code FENCE_JSON_code match_here_def closes_def)

lemma attempt_fenced_answer:
  "parse_and_validate json_loads validate (extract_json (str ''{\"answer\":\"```x```\"}'')) =
     Inl (JSONDecodeError (str ''Expecting value: line 1 column 1 (char 0)''))"
  by (simp add: parse_and_validate_def extract_fenced_answer loads_x)

subsection \<open>Validation without the required field\<close>

lemma both_first_error:
  "\<exists>more. both (Inl [e]) y = Inl (e # more)"
  by (cases y) (simp_all add: both_def)

lemma QAResponse_validate_missing_answer:
  assumes "map_of kvs (str ''answer'') = None"
  shows "\<exists>more. QAResponse_validate (JObj kvs) =
           Inl (([Field (str ''answer'')], Missing, JObj kvs) # more)"
proof -
  let ?e = "([Field (str ''answer'')], Missing, JObj kvs)"
  let ?cs = "case map_of kvs (str ''citations'') of
               None \<Rightarrow> Inr []
             | Some x \<Rightarrow> validate_citations [Field (str ''citations'')] x"
  have r: "required_str [] kvs (str ''answer'') = Inl [?e]"
    using assms by (simp add: required_str_def)
  obtain more where b: "both (Inl [?e] :: line_error list + pystr) ?cs = Inl (?e # more)"
    using both_first_error [of ?e ?cs] by blast
  have "QAResponse_validate (JObj kvs) =
      (case both (required_str [] kvs (str ''answer'')) ?cs of
         Inl errs \<Rightarrow> Inl errs
       | Inr (a, cs) \<Rightarrow> Inr \<lparr>answer = a, citations = cs\<rparr>)"
    by (simp add: QAResponse_validate_def)
  also have "\<dots> = Inl (?e # more)"
    unfolding r b by simp
  finally show ?thesis by blast
qed

lemma line_error_str_missing:
  "line_error_str detail ([Field name], Missing, input) =
     ([10] @ name @ [10] @ str ''  Field required [type=missing'')
     @ detail ([Field name], Missing, input)"
  by (simp add: line_error_str_def loc_item_str_def error_message_def error_type_name_def str_def)

lemma loads_citations_only:
  "json_loads (str ''{\"citations\":[{\"source_id\":\"d\",\"quote\":\"q\"}]}'') =
     Inr (JObj [(str ''citations'',
            JArr [JObj [(str ''source_id'', JStr (str ''d'')), (str ''quote'', JStr (str ''q''))]])])"
  by (simp add: json_loads_def str_def skip_ws_def is_json_ws_def)

lemma extract_citations_only:
  "extract_json (str ''{\"citations\":[{\"source_id\":\"d\",\"quote\":\"q\"}]}'') =
     str ''{\"citations\":[{\"source_id\":\"d\",\"quote\":\"q\"}]}''"
  by (simp add: extract_json_def str_def strip_def lstrip_def rstrip_def is_space_def
      FENCE_code FENCE_JSON_code)

subsection \<open>The scanner makes progress\<close>

lemma skip_ws_length: "length (skip_ws s) \<le> length s"
  unfolding skip_ws_def by (rule length_dropWhile_le)

lemma skip_ws_Cons_length: "skip_ws s = d # r \<Longrightarrow> length r < length s"
  using skip_ws_length [of s] by simp

lemma u_escape_shorter: "u_escape es = Some (u, r) \<Longrightarrow> length r < length es"
  by (auto simp: u_escape_def split: list.splits)

lemma escape_shorter:
  assumes "escape start cs = Inr (ch, r)"
  shows "length r < length cs"
proof (cases cs)
  case Nil
  with assms show ?thesis by (simp add: escape_def)
next
  case (Cons e es)
  show ?thesis
  proof (cases "e = 117")
    case False
    with assms Cons show ?thesis
      by (auto simp: escape_def split: option.splits)
  next
    case True
    with assms Cons obtain u r0 where ur: "u_escape es = Some (u, r0)"
      by (auto simp: escape_def split: option.splits)
    from u_escape_shorter [OF ur] have r0: "length r0 < length es" .
    show ?thesis
    proof (cases "is_high_surrogate u \<and> 6 < length r0 \<and> take 2 r0 = [92, 117]")
      case False
      with assms Cons True ur have "r = r0" by (auto simp: escape_def)
      with r0 Cons show ?thesis by simp
    next
      case pair: True
      with assms Cons True ur obtain u2 r' where u2: "u_escape (drop 2 r0) = Some (u2, r')"
        by (auto simp: escape_def split: option.splits)
      from u_escape_shorter [OF u2] have "length r' < length r0" by simp
      moreover from assms Cons True ur pair u2 have "r = r' \<or> r = r0"
        by (auto simp: escape_def split: if_splits)
      ultimately show ?thesis using r0 Cons by auto
    qed
  qed
qed

lemma scanstring_shorter:
  "scanstring start acc cs = Inr (s, r) \<Longrightarrow> length r < length cs"
proof (induction start acc cs rule: scanstring.induct)
  case (1 start acc)
  then show ?case by simp
next
  case (2 start acc c cs)
  show ?case
  proof (cases "c = 34")
    case True
    with "2.prems" show ?thesis by simp
  next
    case n34: False
    show ?thesis
    proof (cases "c = 92")
      case True
      with "2.prems" n34 obtain ch r0 where e: "escape start cs = Inr (ch, r0)"
        and rec: "scanstring start (acc @ [ch]) r0 = Inr (s, r)"
        by (auto split: sum.splits)
      from "2.IH"(1) [OF n34 True e refl rec] escape_shorter [OF e]
      show ?thesis by simp
    next
      case False
      with "2.prems" n34 have c: "\<not> c \<le> 31" and rec: "scanstring start (acc @ [c]) cs = Inr (s, r)"
        by (auto split: if_splits)
      from "2.IH"(2) [OF n34 False c rec] show ?thesis by simp
    qed
  qed
qed

lemma match_fraction_length: "match_fraction r = (f, r') \<Longrightarrow> length r' \<le> length r"
  using length_dropWhile_le [of is_digit]
  by (auto simp: match_fraction_def le_Suc_eq split: list.splits if_splits)

lemma match_exponent_length: "match_exponent r = (e, r') \<Longrightarrow> length r' \<le> length r"
  using length_dropWhile_le [of is_digit]
  by (auto simp: match_exponent_def Let_def le_Suc_eq split: list.splits if_splits prod.splits)

lemma match_number_shorter:
  assumes "match_number s = Some (v, r)"
  shows "length r < length s"
proof -
  obtain neg r0 where n: "(case s of c # r \<Rightarrow> if c = 45 then (True, r) else (False, s) | [] \<Rightarrow> (False, s)) = (neg, r0)"
    by (meson surj_pair)
  then have r0: "length r0 \<le> length s" by (auto split: list.splits if_splits)
  from assms n obtain c r1 where c: "r0 = c # r1" "is_digit c"
    by (auto simp: match_number_def split: list.splits if_splits)
  let ?r2 = "if c = 48 then r1 else dropWhile is_digit r1"
  have r2: "length ?r2 \<le> length r1" by (simp add: length_dropWhile_le)
  obtain frac r3 where f: "match_fraction ?r2 = (frac, r3)" by (meson surj_pair)
  obtain ex r4 where e: "match_exponent r3 = (ex, r4)" by (meson surj_pair)
  from assms n c f e have "r = r4"
    by (auto simp: match_number_def Let_def split: if_splits)
  with match_fraction_length [OF f] match_exponent_length [OF e] r2 r0 c(1)
  show ?thesis by simp
qed


lemma escape_message:
  "escape start cs = Inl (m, x) \<Longrightarrow> m \<noteq> str ''no progress''"
  by (auto simp: escape_def str_def split: list.splits option.splits if_splits)

lemma scanstring_message:
  "scanstring start acc cs = Inl (m, x) \<Longrightarrow> m \<noteq> str ''no progress''"
proof (induction start acc cs rule: scanstring.induct)
  case (1 start acc)
  then show ?case by (auto simp: str_def)
next
  case (2 start acc c cs)
  show ?case
  proof (cases "c = 34")
    case True
    with "2.prems" show ?thesis by simp
  next
    case n34: False
    show ?thesis
    proof (cases "c = 92")
      case True
      show ?thesis
      proof (cases "escape start cs")
        case (Inl e)
        with "2.prems" n34 True have "escape start cs = Inl (m, x)" by simp
        then show ?thesis by (rule escape_message)
      next
        case (Inr p)
        obtain ch r0 where p: "p = (ch, r0)" by (cases p)
        from "2.prems" n34 True Inr p have "scanstring start (acc @ [ch]) r0 = Inl (m, x)" by simp
        from "2.IH"(1) [OF n34 True Inr p [symmetric] this] show ?thesis .
      qed
    next
      case False
      show ?thesis
      proof (cases "c \<le> 31")
        case True
        with "2.prems" n34 False show ?thesis by (auto simp: str_def)
      next
        case n31: False
        with "2.prems" n34 False have "scanstring start (acc @ [c]) cs = Inl (m, x)" by simp
        from "2.IH"(2) [OF n34 False n31 this] show ?thesis .
      qed
    qed
  qed
qed

text \<open>
  A value, the items of an array and the members of an object leave less text than they
  were read from, and the tests on \<open>length\<close> in the three functions never fail.
\<close>

lemma scan_progress:
  "(\<forall>v r. scan_once cs = Inr (v, r) \<longrightarrow> length r < length cs) \<and>
   (\<forall>x. scan_once cs \<noteq> Inl (str ''no progress'', x))"
  "(\<forall>v r. parse_array items cs' = Inr (v, r) \<longrightarrow> length r < length cs') \<and>
   (\<forall>x. parse_array items cs' \<noteq> Inl (str ''no progress'', x))"
  "(\<forall>v r. parse_object members cs'' = Inr (v, r) \<longrightarrow> length r < length cs'') \<and>
   (\<forall>x. parse_object members cs'' \<noteq> Inl (str ''no progress'', x))"
proof (induction cs and items cs' and members cs'' rule: scan_once_parse_array_parse_object.induct)
  case 1
  show ?case by (simp add: str_def)
next
  case (2 c cs)
  note scan_once.simps [simp del] parse_array.simps [simp del] parse_object.simps [simp del]
  note eq = scan_once.simps(2) [of c cs]
  consider (string) "c = 34"
    | (object) "c \<noteq> 34" "c = 123"
    | (array) "c \<noteq> 34" "c \<noteq> 123" "c = 91"
    | (other) "c \<noteq> 34" "c \<noteq> 123" "c \<noteq> 91"
    by blast
  then show ?case
  proof cases
    case string
    show ?thesis
    proof (cases "scanstring (c # cs) [] cs")
      case (Inl e)
      with string eq scanstring_message [of "c # cs" "[]" cs] show ?thesis
        by (cases e) auto
    next
      case (Inr p)
      with string eq scanstring_shorter [of "c # cs" "[]" cs] show ?thesis
        by (cases p) auto
    qed
  next
    case object
    show ?thesis
    proof (cases "skip_ws cs")
      case Nil
      with object eq "2.IH"(1) show ?thesis by auto
    next
      case (Cons d r)
      note len = skip_ws_Cons_length [OF Cons]
      show ?thesis
      proof (cases "d = 125")
        case True
        with object eq Cons len show ?thesis by auto
      next
        case False
        from "2.IH"(2) [OF object Cons False] object eq Cons False len show ?thesis by auto
      qed
    qed
  next
    case array
    show ?thesis
    proof (cases "skip_ws cs")
      case Nil
      with array eq "2.IH"(3) show ?thesis by auto
    next
      case (Cons d r)
      note len = skip_ws_Cons_length [OF Cons]
      show ?thesis
      proof (cases "d = 93")
        case True
        with array eq Cons len show ?thesis by auto
      next
        case False
        from "2.IH"(4) [OF array Cons False] array eq Cons False len show ?thesis by auto
      qed
    qed
  next
    case other
    from other eq match_number_shorter [of "c # cs"] show ?thesis
      by (auto simp: str_def split: if_splits option.splits)
  qed
next
  case (3 acc cs)
  note scan_once.simps [simp del] parse_array.simps [simp del] parse_object.simps [simp del]
  note eq = parse_array.simps [of acc cs]
  show ?case
  proof (cases "scan_once cs")
    case (Inl e)
    with eq "3.IH"(1) show ?thesis by (cases e) auto
  next
    case (Inr p)
    obtain v0 r0 where p: "p = (v0, r0)" by (cases p)
    with Inr "3.IH"(1) have r0: "length r0 < length cs" by simp
    show ?thesis
    proof (cases "skip_ws r0")
      case Nil
      with eq Inr p show ?thesis by (simp add: str_def)
    next
      case (Cons d r')
      from skip_ws_Cons_length [OF Cons] r0 have len: "length r' < length cs" by simp
      consider "d = 93" | "d \<noteq> 93" "d = 44" | "d \<noteq> 93" "d \<noteq> 44" by blast
      then show ?thesis
      proof cases
        case 1
        with eq Inr p Cons len show ?thesis by simp
      next
        case 2
        from "3.IH"(2) [OF Inr p [symmetric] Cons 2 len] skip_ws_length [of r'] len
        have "(\<forall>v r. parse_array (acc @ [v0]) (skip_ws r') = Inr (v, r) \<longrightarrow> length r < length cs) \<and>
              (\<forall>x. parse_array (acc @ [v0]) (skip_ws r') \<noteq> Inl (str ''no progress'', x))"
          by fastforce
        with eq Inr p Cons 2 len show ?thesis by simp
      next
        case 3
        with eq Inr p Cons show ?thesis by (simp add: str_def)
      qed
    qed
  qed
next
  case (4 acc cs)
  note scan_once.simps [simp del] parse_array.simps [simp del] parse_object.simps [simp del]
  note eq = parse_object.simps [of acc cs]
  show ?case
  proof (cases cs)
    case Nil
    with eq show ?thesis by (simp add: str_def)
  next
    case (Cons q cs')
    show ?thesis
    proof (cases "q = 34")
      case False
      with eq Cons show ?thesis by (simp add: str_def)
    next
      case q: True
      show ?thesis
      proof (cases "scanstring cs [] cs'")
        case (Inl e)
        with eq Cons q scanstring_message [of cs "[]" cs'] show ?thesis
          by (cases e) auto
      next
        case (Inr p)
        obtain key r where p: "p = (key, r)" by (cases p)
        from scanstring_shorter [of cs "[]" cs' key r] Inr p Cons
        have r: "length r < length cs" by simp
        show ?thesis
        proof (cases "skip_ws r")
          case Nil
          with eq Cons q Inr p show ?thesis by (simp add: str_def)
        next
          case c1: (Cons d r')
          from skip_ws_Cons_length [OF c1] r have r': "length r' < length cs" by simp
          show ?thesis
          proof (cases "d = 58")
            case False
            with eq Cons q Inr p c1 show ?thesis by (simp add: str_def)
          next
            case d: True
            from skip_ws_length [of r'] r' have g: "length (skip_ws r') < length cs" by simp
            have d': "\<not> d \<noteq> 58" and q': "\<not> q \<noteq> 34" using d q by simp_all
            note IHv = "4.IH"(1) [OF Cons q' Inr p [symmetric] c1 d' g]
            show ?thesis
            proof (cases "scan_once (skip_ws r')")
              case (Inl e)
              with eq Cons q Inr p c1 d g IHv show ?thesis by (cases e) auto
            next
              case v: (Inr pv)
              obtain v0 r3 where pv: "pv = (v0, r3)" by (cases pv)
              with v IHv g have r3: "length r3 < length cs" by simp
              show ?thesis
              proof (cases "skip_ws r3")
                case Nil
                with eq Cons q Inr p c1 d g v pv show ?thesis by (simp add: str_def)
              next
                case c2: (Cons d2 r4)
                from skip_ws_Cons_length [OF c2] r3 have r4: "length r4 < length cs" by simp
                consider "d2 = 125" | "d2 \<noteq> 125" "d2 = 44" | "d2 \<noteq> 125" "d2 \<noteq> 44" by blast
                then show ?thesis
                proof cases
                  case 1
                  with eq Cons q Inr p c1 d g v pv c2 r4 show ?thesis by simp
                next
                  case 2
                  from "4.IH"(2) [OF Cons q' Inr p [symmetric] c1 d' g v pv [symmetric] c2 2 r4]
                    skip_ws_length [of r4] r4
                  have "(\<forall>v r. parse_object (AList.update key v0 acc) (skip_ws r4) = Inr (v, r) \<longrightarrow>
                           length r < length cs) \<and>
                        (\<forall>x. parse_object (AList.update key v0 acc) (skip_ws r4) \<noteq>
                           Inl (str ''no progress'', x))"
                    by fastforce
                  with eq Cons q Inr p c1 d g v pv c2 2 r4 show ?thesis by simp
                next
                  case 3
                  with eq Cons q Inr p c1 d g v pv c2 show ?thesis by (simp add: str_def)
                qed
              qed
            qed
          qed
        qed
      qed
    qed
  qed
qed

subsection \<open>The first tagged block of a text\<close>

lemma first_occurrence:
  assumes "t \<noteq> []" and "sublist t s"
  shows "\<exists>pre post. s = pre @ t @ post \<and> \<not> sublist t (pre @ butlast t)"
  using assms(2)
proof (induction s)
  case Nil
  with assms(1) show ?case by simp
next
  case (Cons c cs)
  show ?case
  proof (cases "prefix t (c # cs)")
    case True
    then obtain post where "c # cs = [] @ t @ post" by (auto simp: prefix_def)
    moreover have "\<not> sublist t ([] @ butlast t)"
      using assms(1) sublist_length_le [of t "butlast t"] by (cases t) auto
    ultimately show ?thesis by blast
  next
    case False
    with Cons.prems have "sublist t cs" by (simp add: sublist_Cons_right)
    from Cons.IH [OF this] obtain pre post where
      cs: "cs = pre @ t @ post" and first: "\<not> sublist t (pre @ butlast t)" by blast
    have "\<not> prefix t ((c # pre) @ butlast t)"
    proof
      assume "prefix t ((c # pre) @ butlast t)"
      moreover have "prefix ((c # pre) @ butlast t) (c # cs)"
        unfolding cs using assms(1)
        by (metis append_butlast_last_id append_assoc prefix_def same_prefix_prefix append_Cons)
      ultimately have "prefix t (c # cs)" by (rule prefix_order.trans)
      with False show False by contradiction
    qed
    with first have "\<not> sublist t ((c # pre) @ butlast t)"
      by (simp add: sublist_Cons_right)
    moreover have "c # cs = (c # pre) @ t @ post" using cs by simp
    ultimately show ?thesis by blast
  qed
qed

text \<open>
  Every text that holds a json-tagged fenced block, the tag and a fence somewhere after
  it, splits as the statement about the first tagged block asks.
\<close>

lemma tagged_block_split:
  assumes "text0 = a @ FENCE_JSON @ b @ FENCE @ c"
  shows "\<exists>pre body post. text0 = pre @ FENCE_JSON @ body @ FENCE @ post \<and>
           \<not> sublist FENCE_JSON (pre @ butlast FENCE_JSON) \<and>
           \<not> sublist FENCE (body @ butlast FENCE)"
proof -
  have tne: "FENCE_JSON \<noteq> []" and fne: "FENCE \<noteq> []"
    by (simp_all add: FENCE_code FENCE_JSON_code)
  have "sublist FENCE_JSON text0" unfolding assms by simp
  from first_occurrence [OF tne this] obtain pre rest where
    t: "text0 = pre @ FENCE_JSON @ rest" and first: "\<not> sublist FENCE_JSON (pre @ butlast FENCE_JSON)"
    by blast
  from t assms have "pre @ (FENCE_JSON @ rest) = a @ (FENCE_JSON @ b @ FENCE @ c)" by simp
  then consider (longer) us where "pre = a @ us" "us \<noteq> []" "us @ FENCE_JSON @ rest = FENCE_JSON @ b @ FENCE @ c"
    | (shorter) us where "FENCE_JSON @ rest = us @ FENCE_JSON @ b @ FENCE @ c"
    unfolding append_eq_append_conv2 [of pre] by (metis append_Nil)
  then have "sublist FENCE rest"
  proof cases
    case longer
    from longer(3) have "prefix FENCE_JSON (us @ FENCE_JSON @ rest)" by simp
    then have "prefix FENCE_JSON (us @ butlast FENCE_JSON)"
      using longer(2) by (intro prefix_overlap) auto
    then have "sublist FENCE_JSON (pre @ butlast FENCE_JSON)"
      unfolding longer(1) by (auto simp: prefix_def sublist_def)
    with first show ?thesis by contradiction
  next
    case shorter
    let ?x = "us @ FENCE_JSON @ b"
    have "rest = drop (length FENCE_JSON) (FENCE_JSON @ rest)" by simp
    also have "\<dots> = drop (length FENCE_JSON) (?x @ FENCE @ c)" using shorter by simp
    also have "\<dots> = drop (length FENCE_JSON) ?x @ FENCE @ c" by simp
    finally show ?thesis by (metis sublist_appendI)
  qed
  from first_occurrence [OF fne this] obtain body post where
    "rest = body @ FENCE @ post" "\<not> sublist FENCE (body @ butlast FENCE)" by blast
  with t first show ?thesis by blast
qed

section \<open>The claims\<close>

text \<open>
  Claim C1. With \<open>max_retries \<ge> 1\<close> a call ends in one of two ways: it returns a
  value, and then this value is what \<open>model_validate\<close> returned for the data that
  \<open>json.loads\<close> read from the extracted text of the last answer; or it raises. It does
  not return \<open>None\<close>, and it returns nothing that was not validated.
\<close>

theorem ask_llm_for_json_validated_or_raised:
  assumes "1 \<le> max_retries"
    and "ask_llm_for_json chat loads validate prompt model max_retries = (out, calls)"
  shows "(\<exists>v raw data. out = Return v \<and> chat calls = Inr raw \<and>
            loads (extract_json raw) = Inr data \<and> validate data = Inr v) \<or>
         (\<exists>e. out = Raise e)"
proof -
  have ne: "range_py max_retries \<noteq> []" and l: "\<not> last (range_py max_retries) < max_retries - 1"
    using assms(1) by (simp_all add: range_py_last)
  from attempts_result [OF assms(2) [unfolded ask_llm_for_json_def] ne l]
  have nn: "out \<noteq> ReturnNone"
    and val: "\<forall>v. out = Return v \<longrightarrow>
      (\<exists>raw. chat calls = Inr raw \<and> parse_and_validate loads validate (extract_json raw) = Inr v)"
    by blast+
  show ?thesis
  proof (cases out)
    case (Return v)
    with val obtain raw where "chat calls = Inr raw"
      "parse_and_validate loads validate (extract_json raw) = Inr v" by blast
    with Return show ?thesis
      by (auto simp: parse_and_validate_def split: sum.splits)
  next
    case ReturnNone
    with nn show ?thesis by simp
  next
    case (Raise e)
    then show ?thesis by simp
  qed
qed

theorem ask_llm_for_json_validated_or_raised_witness:
  "ask_llm_for_json (\<lambda>calls. Inr (str ''{\"answer\":\"a\"}'')) json_loads
     (QAResponse_model_validate (\<lambda>e. [])) (str ''p'') (str ''m'') 1 =
     (Return \<lparr>answer = str ''a'', citations = []\<rparr>, [(str ''m'', str ''p'')]) \<and>
   ((\<exists>v raw data.
      Return \<lparr>answer = str ''a'', citations = []\<rparr> = Return v \<and>
      (Inr (str ''{\"answer\":\"a\"}'') :: exn + pystr) = Inr raw \<and>
      json_loads (extract_json raw) = Inr data \<and>
      QAResponse_model_validate (\<lambda>e. []) data = Inr v) \<or>
    (\<exists>e. Return \<lparr>answer = str ''a'', citations = []\<rparr> = Raise e))"
proof -
  have run: "ask_llm_for_json (\<lambda>calls. Inr (str ''{\"answer\":\"a\"}'')) json_loads
      (QAResponse_model_validate (\<lambda>e. [])) (str ''p'') (str ''m'') 1 =
      (Return \<lparr>answer = str ''a'', citations = []\<rparr>, [(str ''m'', str ''p'')])"
    by (simp add: ask_llm_for_json_def range_py_1 attempts_step attempt_good)
  have le: "(1 :: int) \<le> 1" by simp
  show ?thesis
    by (rule conjI [OF run ask_llm_for_json_validated_or_raised [OF le run]])
qed

text \<open>
  Claim C2 as stated fails. The service answers \<open>x\<close> to every request and
  \<open>max_retries\<close> is 3: the prompt of the third request is the original prompt followed
  by two corrective texts, not by one.
\<close>

theorem ask_llm_for_json_one_suffix_counterexample:
  "snd (snd (ask_llm_for_json (\<lambda>calls. Inr (str ''x'')) json_loads
       (QAResponse_model_validate (\<lambda>e. [])) (str ''p'') (str ''m'') 3) ! 2) =
     str ''p'' @ corrective_suffix (Some error_x) @ corrective_suffix (Some error_x) \<and>
   snd (snd (ask_llm_for_json (\<lambda>calls. Inr (str ''x'')) json_loads
       (QAResponse_model_validate (\<lambda>e. [])) (str ''p'') (str ''m'') 3) ! 2) \<noteq>
     str ''p'' @ corrective_suffix (Some error_x)"
  by (simp add: run_three_failures corrective_prompt_def corrective_suffix_nonempty)

text \<open>
  Claim C2, as amended. The corrective text is appended to the current working prompt,
  which already holds the corrective texts of the earlier failures: the prompt of the
  request number \<open>k\<close> (from 0) is the original prompt followed by the corrective texts
  for the errors recorded on the attempts \<open>0\<close> to \<open>k - 1\<close>, in this order, each of which
  recorded an error.
\<close>

theorem ask_llm_for_json_prompts_compound:
  assumes "ask_llm_for_json chat loads validate prompt model max_retries = (out, calls)"
    and "k < length calls"
  shows "calls ! k =
           (model, prompt @ concat (map
              (\<lambda>i. corrective_suffix (attempt_error loads validate (chat (take (Suc i) calls))))
              [0..<k])) \<and>
         (\<forall>i < k. attempt_error loads validate (chat (take (Suc i) calls)) \<noteq> None)"
  using assms(2)
proof (induction k)
  case 0
  with ask_trace [OF assms(1)] show ?case by simp
next
  case (Suc k)
  then have IH: "calls ! k =
           (model, prompt @ concat (map
              (\<lambda>i. corrective_suffix (attempt_error loads validate (chat (take (Suc i) calls))))
              [0..<k]))"
    and IH2: "\<forall>i < k. attempt_error loads validate (chat (take (Suc i) calls)) \<noteq> None"
    by simp_all
  from ask_trace [OF assms(1)] Suc.prems obtain err where
    err: "attempt_error loads validate (chat (take (Suc k) calls)) = Some err"
    and nxt: "calls ! Suc k = (model, corrective_prompt (snd (calls ! k)) (Some err))"
    by blast
  have "\<forall>i < Suc k. attempt_error loads validate (chat (take (Suc i) calls)) \<noteq> None"
    using IH2 err by (auto simp: less_Suc_eq)
  moreover have "calls ! Suc k =
           (model, prompt @ concat (map
              (\<lambda>i. corrective_suffix (attempt_error loads validate (chat (take (Suc i) calls))))
              [0..<Suc k]))"
    using nxt IH err by (simp add: corrective_prompt_def)
  ultimately show ?case by blast
qed

theorem ask_llm_for_json_prompts_compound_witness:
  "ask_llm_for_json (\<lambda>calls. Inr (str ''x'')) json_loads
       (QAResponse_model_validate (\<lambda>e. [])) (str ''p'') (str ''m'') 3 =
     (Raise (ValueError (failed_message 3 (Some error_x))) :: qa_response outcome,
      [(str ''m'', str ''p''),
       (str ''m'', corrective_prompt (str ''p'') (Some error_x)),
       (str ''m'', corrective_prompt (corrective_prompt (str ''p'') (Some error_x)) (Some error_x))]) \<and>
   ([(str ''m'', str ''p''),
       (str ''m'', corrective_prompt (str ''p'') (Some error_x)),
       (str ''m'', corrective_prompt (corrective_prompt (str ''p'') (Some error_x)) (Some error_x))] ! 2 =
      (str ''m'', str ''p'' @ concat (map
         (\<lambda>i. corrective_suffix
            (attempt_error json_loads (QAResponse_model_validate (\<lambda>e. [])) (Inr (str ''x''))))
         [0..<2])))"
proof -
  have k: "2 < length [(str ''m'', str ''p''),
       (str ''m'', corrective_prompt (str ''p'') (Some error_x)),
       (str ''m'', corrective_prompt (corrective_prompt (str ''p'') (Some error_x)) (Some error_x))]" by simp
  show ?thesis
    by (rule conjI [OF run_three_failures
          conjunct1 [OF ask_llm_for_json_prompts_compound [OF run_three_failures k]]])
qed






text \<open>
  Claim C5 as stated fails. The first answer \<open>x\<close> is malformed, the second answer
  \<open>{"answer":"```x```"}\<close> is valid JSON and conforms to \<open>QAResponse\<close>, but the
  extractor cuts it down to \<open>x\<close>: with \<open>max_retries = 2\<close> the run makes two requests
  and raises \<open>ValueError\<close> instead of returning the value.
\<close>

theorem ask_llm_for_json_second_attempt_counterexample:
  "json_loads (str ''x'') =
     Inl (JSONDecodeError (str ''Expecting value: line 1 column 1 (char 0)'')) \<and>
   json_loads (str ''{\"answer\":\"```x```\"}'') =
     Inr (JObj [(str ''answer'', JStr (str ''```x```''))]) \<and>
   QAResponse_model_validate (\<lambda>e. []) (JObj [(str ''answer'', JStr (str ''```x```''))]) =
     Inr \<lparr>answer = str ''```x```'', citations = []\<rparr> \<and>
   ask_llm_for_json
     (\<lambda>calls. if length calls = 1 then Inr (str ''x'') else Inr (str ''{\"answer\":\"```x```\"}''))
     json_loads (QAResponse_model_validate (\<lambda>e. [])) (str ''p'') (str ''m'') 2 =
     (Raise (ValueError (failed_message 2
        (Some error_x))),
      [(str ''m'', str ''p''),
       (str ''m'', corrective_prompt (str ''p'')
          (Some error_x))])"
  by (simp add: loads_x loads_fenced_answer validate_fenced_answer ask_llm_for_json_def range_py_2
      attempts_step attempt_x attempt_fenced_answer)

text \<open>
  Claim C5, as amended: malformed and valid are said of the text that the extractor
  returns. With \<open>max_retries \<ge> 2\<close>: when the text extracted from the first answer
  makes \<open>json.loads\<close> raise \<open>JSONDecodeError\<close> with the text \<open>m\<close>, and the text
  extracted from the answer to the second request parses and validates to \<open>v\<close>, the run
  returns \<open>v\<close> after the two requests, and the prompt of the second request contains
  \<open>JSON decode error: m\<close>, the error recorded on the first attempt.
\<close>

theorem ask_llm_for_json_second_attempt:
  assumes "2 \<le> max_retries"
    and "chat [(model, prompt)] = Inr first_raw"
    and "loads (extract_json first_raw) = Inl (JSONDecodeError m)"
    and "next_prompt = corrective_prompt prompt (Some (str ''JSON decode error: '' @ m))"
    and "chat [(model, prompt), (model, next_prompt)] = Inr second_raw"
    and "loads (extract_json second_raw) = Inr data"
    and "validate data = Inr v"
  shows "ask_llm_for_json chat loads validate prompt model max_retries =
           (Return v, [(model, prompt), (model, next_prompt)]) \<and>
         sublist (str ''JSON decode error: '' @ m) next_prompt"
proof -
  have "sublist (str ''JSON decode error: '' @ m) next_prompt"
    unfolding assms(4) corrective_prompt_def corrective_suffix_def fmt_def
    by (simp add: sublist_def) (metis append_assoc)
  moreover have "ask_llm_for_json chat loads validate prompt model max_retries =
           (Return v, [(model, prompt), (model, next_prompt)])"
    using assms
    by (simp add: ask_llm_for_json_def range_py_second attempts_step parse_and_validate_def)
  ultimately show ?thesis by simp
qed

theorem ask_llm_for_json_second_attempt_witness:
  "ask_llm_for_json
     (\<lambda>calls. if length calls = 1 then Inr (str ''x'') else Inr (str ''{\"answer\":\"a\"}''))
     json_loads (QAResponse_model_validate (\<lambda>e. [])) (str ''p'') (str ''m'') 3 =
     (Return \<lparr>answer = str ''a'', citations = []\<rparr>,
      [(str ''m'', str ''p''),
       (str ''m'', corrective_prompt (str ''p'')
          (Some error_x))]) \<and>
   sublist error_x
     (corrective_prompt (str ''p'')
        (Some error_x))"
proof -
  let ?chat = "\<lambda>calls :: request list.
      if length calls = 1 then Inr (str ''x'') else (Inr (str ''{\"answer\":\"a\"}'') :: exn + pystr)"
  let ?p2 = "corrective_prompt (str ''p'')
      (Some error_x)"
  have le: "(2 :: int) \<le> 3" by simp
  have c1: "?chat [(str ''m'', str ''p'')] = Inr (str ''x'')" by simp
  have l1: "json_loads (extract_json (str ''x'')) =
      Inl (JSONDecodeError (str ''Expecting value: line 1 column 1 (char 0)''))"
    by (simp add: extract_x loads_x)
  have c2: "?chat [(str ''m'', str ''p''), (str ''m'', ?p2)] = Inr (str ''{\"answer\":\"a\"}'')"
    by simp
  have l2: "json_loads (extract_json (str ''{\"answer\":\"a\"}'')) =
      Inr (JObj [(str ''answer'', JStr (str ''a''))])"
    by (simp add: extract_good loads_good)
  note inst = ask_llm_for_json_second_attempt
    [where chat = ?chat and loads = json_loads and max_retries = 3
       and validate = "QAResponse_model_validate (\<lambda>e. [])"
       and model = "str ''m''" and prompt = "str ''p''" and next_prompt = ?p2
       and first_raw = "str ''x''" and second_raw = "str ''{\"answer\":\"a\"}''"
       and m = "str ''Expecting value: line 1 column 1 (char 0)''"
       and data = "JObj [(str ''answer'', JStr (str ''a''))]"
       and v = "\<lparr>answer = str ''a'', citations = []\<rparr>"]
  show ?thesis
    by (rule inst [OF le c1 l1 refl c2 l2 validate_good])
qed

text \<open>
  Claim C6. When a call of the completion service raises, the run raises the same
  exception and makes no further request: if the \<open>k\<close>-th request of a run was answered
  by the exception \<open>e\<close>, the run ends with \<open>e\<close> and the \<open>k\<close>-th request is its last.
\<close>

theorem ask_llm_for_json_service_fault:
  assumes "ask_llm_for_json chat loads validate prompt model max_retries = (out, calls)"
    and "0 < k" and "k \<le> length calls"
    and "chat (take k calls) = Inl e"
  shows "out = Raise e \<and> k = length calls"
  using attempts_fault [OF assms(1) [unfolded ask_llm_for_json_def] _ assms(3,4)] assms(2)
  by simp

theorem ask_llm_for_json_service_fault_witness:
  "ask_llm_for_json
     (\<lambda>calls. if length calls = 2 then Inl (OtherError (str ''ConnectionError'') (str ''refused''))
               else Inr (str ''x''))
     json_loads (QAResponse_model_validate (\<lambda>e. [])) (str ''p'') (str ''m'') 3 =
     (Raise (OtherError (str ''ConnectionError'') (str ''refused'')) :: qa_response outcome,
      [(str ''m'', str ''p''),
       (str ''m'', corrective_prompt (str ''p'')
          (Some error_x))]) \<and>
   ((Raise (OtherError (str ''ConnectionError'') (str ''refused'')) :: qa_response outcome) =
      Raise (OtherError (str ''ConnectionError'') (str ''refused'')) \<and>
    2 = length
      [(str ''m'', str ''p''),
       (str ''m'', corrective_prompt (str ''p'')
          (Some error_x))])"
proof -
  let ?chat = "\<lambda>calls :: request list.
      if length calls = 2 then Inl (OtherError (str ''ConnectionError'') (str ''refused''))
      else Inr (str ''x'')"
  let ?e = "Some error_x"
  let ?calls = "[(str ''m'', str ''p''), (str ''m'', corrective_prompt (str ''p'') ?e)]"
  have run: "ask_llm_for_json ?chat json_loads (QAResponse_model_validate (\<lambda>e. []))
      (str ''p'') (str ''m'') 3 =
      (Raise (OtherError (str ''ConnectionError'') (str ''refused'')) :: qa_response outcome, ?calls)"
    by (simp add: ask_llm_for_json_def range_py_3 attempts_step attempt_x)
  have k: "(0 :: nat) < 2" "2 \<le> length ?calls" by simp_all
  have f: "?chat (take 2 ?calls) = Inl (OtherError (str ''ConnectionError'') (str ''refused''))"
    by simp
  show ?thesis
    by (rule conjI [OF run ask_llm_for_json_service_fault [OF run k f]])
qed

text \<open>
  Claim C7. A parsed payload that is a dictionary without the key \<open>answer\<close> does not
  validate against \<open>QAResponse\<close>, whatever else it holds: \<open>model_validate\<close> raises
  \<open>ValidationError\<close>, the attempt records \<open>Schema validation error: \<close> followed by the
  text of the exception, and this text has the line \<open>answer\<close> followed by the line
  \<open>Field required [type=missing\<close> and what the library adds to it.
\<close>

theorem QAResponse_missing_answer:
  assumes "map_of kvs (str ''answer'') = None"
    and "loads (extract_json raw) = Inr (JObj kvs)"
  shows "\<exists>msg. QAResponse_model_validate detail (JObj kvs) = Inl (ValidationError msg) \<and>
           attempt_error loads (QAResponse_model_validate detail) (Inr raw) =
             Some (str ''Schema validation error: '' @ msg) \<and>
           sublist ([10] @ str ''answer'' @ [10] @ str ''  Field required [type=missing'') msg"
proof -
  from QAResponse_validate_missing_answer [OF assms(1)] obtain more where
    v: "QAResponse_validate (JObj kvs) =
          Inl (([Field (str ''answer'')], Missing, JObj kvs) # more)" by blast
  let ?errs = "([Field (str ''answer'')], Missing, JObj kvs) # more"
  let ?msg = "validation_error_str detail (str ''QAResponse'') ?errs"
  have mv: "QAResponse_model_validate detail (JObj kvs) = Inl (ValidationError ?msg)"
    by (simp add: QAResponse_model_validate_def v)
  then have "attempt_error loads (QAResponse_model_validate detail) (Inr raw) =
      Some (str ''Schema validation error: '' @ ?msg)"
    by (simp add: attempt_error_def parse_and_validate_def assms(2))
  moreover have "sublist ([10] @ str ''answer'' @ [10] @ str ''  Field required [type=missing'') ?msg"
  proof -
    have "\<exists>a b. ?msg = a @ ([10] @ str ''answer'' @ [10] @ str ''  Field required [type=missing'') @ b"
      unfolding validation_error_str_def
      by (simp only: list.map concat.simps line_error_str_missing) (metis append_assoc)
    then show ?thesis by (auto simp: sublist_def)
  qed
  ultimately show ?thesis using mv by blast
qed

theorem QAResponse_missing_answer_witness:
  "\<exists>msg. QAResponse_model_validate (\<lambda>e. str '']'')
       (JObj [(str ''citations'',
        JArr [JObj [(str ''source_id'', JStr (str ''d'')), (str ''quote'', JStr (str ''q''))]])]) = Inl (ValidationError msg) \<and>
     attempt_error json_loads (QAResponse_model_validate (\<lambda>e. str '']''))
       (Inr (str ''{\"citations\":[{\"source_id\":\"d\",\"quote\":\"q\"}]}'')) =
       Some (str ''Schema validation error: '' @ msg) \<and>
     sublist ([10] @ str ''answer'' @ [10] @ str ''  Field required [type=missing'') msg"
proof -
  let ?kvs = "[(str ''citations'',
        JArr [JObj [(str ''source_id'', JStr (str ''d'')), (str ''quote'', JStr (str ''q''))]])]"
  let ?raw = "str ''{\"citations\":[{\"source_id\":\"d\",\"quote\":\"q\"}]}''"
  have none: "map_of ?kvs (str ''answer'') = None"
    by (simp add: str_def)
  have l: "json_loads (extract_json ?raw) = Inr (JObj ?kvs)"
    by (simp only: extract_citations_only loads_citations_only)
  note inst = QAResponse_missing_answer
    [where kvs = ?kvs and loads = json_loads and raw = ?raw and detail = "\<lambda>e. str '']''"]
  show ?thesis
    by (rule inst [OF none l])
qed

text \<open>
  Claim C8. When the text holds a json-tagged fenced block, the extractor returns the
  stripped interior of the first one: \<open>pre\<close> is the text before the first tag,
  \<open>body\<close> the interior up to the first fence after the tag. Every text with a tag
  and a fence after it splits in this way (lemma \<open>tagged_block_split\<close>). Nothing is
  asked of \<open>pre\<close> and \<open>post\<close> beyond that, so a plain fenced block may stand
  anywhere, also before the tagged one.
\<close>

theorem extract_json_tagged_block_first:
  assumes "text0 = pre @ FENCE_JSON @ body @ FENCE @ post"
    and "\<not> sublist FENCE_JSON (pre @ butlast FENCE_JSON)"
    and "\<not> sublist FENCE (body @ butlast FENCE)"
  shows "extract_json text0 = strip body"
  using assms by (intro extract_json_first_block [where tag = FENCE_JSON]) auto

theorem extract_json_tagged_block_first_witness:
  "extract_json (str ''``` a ``` then ```json b ``` end'') = str ''b''"
proof -
  let ?pre = "str ''``` a ``` then ''"
  let ?body = "str '' b ''"
  let ?post = "str '' end''"
  have t: "str ''``` a ``` then ```json b ``` end'' = ?pre @ FENCE_JSON @ ?body @ FENCE @ ?post"
    by (simp add: str_def FENCE_code FENCE_JSON_code)
  have p: "\<not> sublist FENCE_JSON (?pre @ butlast FENCE_JSON)"
    unfolding contains_sublist [symmetric] by (simp add: str_def FENCE_JSON_code)
  have b: "\<not> sublist FENCE (?body @ butlast FENCE)"
    unfolding contains_sublist [symmetric] by (simp add: str_def FENCE_code)
  have "strip ?body = str ''b''"
    by (simp add: strip_def lstrip_def rstrip_def str_def is_space_def)
  with extract_json_tagged_block_first [OF t p b] show ?thesis by simp
qed

text \<open>
  Claim C9. The extractor is idempotent: applied to its own output it returns that output
  unchanged. A fenced interior it returns holds no fence and is stripped; a text it
  returns whole is stripped and was searched without a match, and is searched the same way
  again.
\<close>

theorem extract_json_idempotent:
  "extract_json (extract_json s) = extract_json s"
proof -
  consider (hit) g where "\<not> sublist FENCE g" "extract_json s = strip g"
    | (miss) "extract_json s = strip s"
        "contains FENCE_JSON (strip s) \<longrightarrow> re_search FENCE_JSON (strip s) = None"
        "contains FENCE (strip s) \<longrightarrow> re_search FENCE (strip s) = None"
    using extract_json_cases [of s] by blast
  then show ?thesis
  proof cases
    case hit
    then show ?thesis
      using extract_json_fixed [of "strip g"] by (simp add: strip_strip no_fence_strip)
  next
    case miss
    have "extract_json (strip s) = strip s"
      unfolding extract_json_def Let_def using miss(2,3)
      by (auto simp: strip_strip split: option.splits)
    with miss(1) show ?thesis by simp
  qed
qed

theorem extract_json_idempotent_witness:
  "extract_json (extract_json (str ''x ```json  {} ``` y'')) = str ''{}''"
proof -
  have once: "extract_json (str ''x ```json  {} ``` y'') = str ''{}''"
    by (simp add: extract_json_def str_def strip_def lstrip_def rstrip_def is_space_def
        FENCE_code FENCE_JSON_code match_here_def closes_def)
  show ?thesis
    unfolding extract_json_idempotent by (rule once)
qed

text \<open>
  Claim C10. With \<open>max_retries \<le> 0\<close> the loop body is not run: no request is made,
  nothing is raised, and the call returns \<open>None\<close>.
\<close>

theorem ask_llm_for_json_no_attempts:
  assumes "max_retries \<le> 0"
  shows "ask_llm_for_json chat loads validate prompt model max_retries = (ReturnNone, [])"
  using assms by (simp add: ask_llm_for_json_def range_py_empty)

theorem ask_llm_for_json_no_attempts_witness:
  "(0 :: int) \<le> 0 \<and>
   ask_llm_for_json (\<lambda>calls. Inr (str ''x'')) json_loads (QAResponse_model_validate (\<lambda>e. []))
     (str ''p'') (str ''llama3.2'') 0 = (ReturnNone, [])"
  using ask_llm_for_json_no_attempts [of 0 "\<lambda>calls. Inr (str ''x'')" json_loads
      "QAResponse_model_validate (\<lambda>e. [])" "str ''p''" "str ''llama3.2''"]
  by simp

end
